theory Spec2Isabelle
  imports Complex_Main "HOL-Library.Sublist"
begin

section \<open>Data model (src/utils/types.py)\<close>

text \<open>
  Strings are character lists. Exceptions are values of the type \<open>py_exception\<close>; a
  function that can raise returns \<open>py_exception + 'a\<close>, with \<open>Inl\<close> for the raise.
\<close>

datatype py_exception = ValueError string | KeyError | NoRouteError string

subsection \<open>Floats\<close>

text \<open>
  A Python \<open>float\<close> is an IEEE-754 binary64 number. The floats that enter a search from
  outside (coordinates, edge weights, the values of a heuristic) are finite, and each is
  modelled by the real number it denotes. The floats a search computes (path costs and
  priorities) are sums, and a sum is rounded and can overflow: they have the type
  \<open>pyfloat\<close>, a real number or one of the two infinities. The second operand of every
  sum is finite, so two infinities of opposite sign are never added and NaN does not
  arise; the two zeros of binary64 compare equal and are the one value \<open>Fin 0\<close>.

  \<open>round_double\<close> is rounding to the nearest binary64 number, ties to the even
  significand: \<open>expo x\<close> is the binary exponent of \<open>x\<close>, at least that of the normal
  numbers and at most that of the largest, \<open>ulp x\<close> the distance between the floats
  around \<open>x\<close>, and a result of magnitude \<open>2 ^ 1024\<close> or more is an infinity.
  \<open>float_add\<close> is \<open>+\<close> on a computed float and a finite float.
\<close>

datatype pyfloat = NInf | Fin real | PInf

instantiation pyfloat :: "{zero, linorder}"
begin

definition zero_pyfloat :: pyfloat where
  "zero_pyfloat = Fin 0"

definition less_eq_pyfloat :: "pyfloat \<Rightarrow> pyfloat \<Rightarrow> bool" where
  "less_eq_pyfloat x y =
     (case x of
        NInf \<Rightarrow> True
      | Fin a \<Rightarrow> (case y of NInf \<Rightarrow> False | Fin b \<Rightarrow> a \<le> b | PInf \<Rightarrow> True)
      | PInf \<Rightarrow> y = PInf)"

definition less_pyfloat :: "pyfloat \<Rightarrow> pyfloat \<Rightarrow> bool" where
  "less_pyfloat x y = (x \<le> y \<and> \<not> y \<le> (x :: pyfloat))"

instance
  by standard (auto simp: less_eq_pyfloat_def less_pyfloat_def split: pyfloat.splits)

end

fun find_expo :: "nat \<Rightarrow> int \<Rightarrow> real \<Rightarrow> int" where
  "find_expo 0 e a = e"
| "find_expo (Suc n) e a = (if a < 2 powi (e + 1) then e else find_expo n (e + 1) a)"

definition expo :: "real \<Rightarrow> int" where
  "expo x = find_expo 2045 (- 1022) \<bar>x\<bar>"

definition ulp :: "real \<Rightarrow> real" where
  "ulp x = 2 powi (expo x - 52)"

definition round_even :: "real \<Rightarrow> int" where
  "round_even x =
     (let f = \<lfloor>x\<rfloor>; d = x - of_int f
      in if d < 1 / 2 then f else if 1 / 2 < d then f + 1 else if even f then f else f + 1)"

definition round_double :: "real \<Rightarrow> pyfloat" where
  "round_double x =
     (let r = of_int (round_even (x / ulp x)) * ulp x
      in if 2 powi 1024 \<le> r then PInf else if r \<le> - (2 powi 1024) then NInf else Fin r)"

fun float_add :: "pyfloat \<Rightarrow> real \<Rightarrow> pyfloat" where
  "float_add (Fin x) y = round_double (x + y)"
| "float_add PInf y = PInf"
| "float_add NInf y = NInf"

lemma Fin_le [simp]: "Fin a \<le> Fin b \<longleftrightarrow> a \<le> b"
  by (simp add: less_eq_pyfloat_def)

lemma Fin_less [simp]: "Fin a < Fin b \<longleftrightarrow> a < b"
  by (auto simp: less_eq_pyfloat_def less_pyfloat_def)

lemma Fin_zero [simp]: "Fin a < 0 \<longleftrightarrow> a < 0" "Fin a = 0 \<longleftrightarrow> a = 0" "0 = Fin a \<longleftrightarrow> a = 0"
  by (auto simp: zero_pyfloat_def)

subsection \<open>Nodes, routes and results\<close>

text \<open>
  \<open>Node\<close>: the dataclass has three fields; \<open>__eq__\<close> and \<open>__hash__\<close> look at the
  identifier only. The field \<open>id\<close> is called \<open>node_id\<close> here. Wherever the source
  compares nodes with \<open>==\<close>, tests membership with \<open>in\<close> or uses a node as a dictionary
  key, the model compares identifiers. Coordinates are finite floats, and the heuristics
  compute on them with the real functions \<open>sin\<close>, \<open>cos\<close>, \<open>arcsin\<close> and \<open>sqrt\<close>.
\<close>

record Node =
  node_id :: string
  latitude :: real
  longitude :: real

definition node_eq :: "Node \<Rightarrow> Node \<Rightarrow> bool" where
  "node_eq a b = (node_id a = node_id b)"

abbreviation mk_node :: "string \<Rightarrow> real \<Rightarrow> real \<Rightarrow> Node" where
  "mk_node i la lo \<equiv> \<lparr>node_id = i, latitude = la, longitude = lo\<rparr>"


record Route =
  path :: "Node list"
  total_distance :: pyfloat
  algorithm :: string
  execution_time :: int
  nodes_explored :: int
  explored_nodes :: "Node list"
  open_set_nodes :: "Node list"
  explored_edges :: "(Node \<times> Node) list"

text \<open>
  \<open>Route.__post_init__\<close>: the three range checks, in the order of the source. The
  messages of the exceptions are kept without the formatted value.
\<close>

definition Route_init ::
  "Node list \<Rightarrow> pyfloat \<Rightarrow> string \<Rightarrow> int \<Rightarrow> int \<Rightarrow> Node list \<Rightarrow> Node list \<Rightarrow> (Node \<times> Node) list
     \<Rightarrow> py_exception + Route" where
  "Route_init p d a t n en os ee =
     (if d < 0 then Inl (ValueError ''Distance cannot be negative'')
      else if t < 0 then Inl (ValueError ''Execution time cannot be negative'')
      else if n < 0 then Inl (ValueError ''Nodes explored cannot be negative'')
      else Inr \<lparr>path = p, total_distance = d, algorithm = a, execution_time = t,
                nodes_explored = n, explored_nodes = en, open_set_nodes = os,
                explored_edges = ee\<rparr>)"

record PathfindingResult =
  success :: bool
  route :: "Route option"
  error :: "string option"

text \<open>\<open>PathfindingResult.__post_init__\<close>: the two checks of the source.\<close>

definition PathfindingResult_init ::
  "bool \<Rightarrow> Route option \<Rightarrow> string option \<Rightarrow> py_exception + PathfindingResult" where
  "PathfindingResult_init s r e =
     (if s \<and> r = None then Inl (ValueError ''Successful result must include a route'')
      else if \<not> s \<and> e = None then Inl (ValueError ''Failed result must include an error message'')
      else Inr \<lparr>success = s, route = r, error = e\<rparr>)"

section \<open>Graph container (src/algorithms/graph.py)\<close>

text \<open>
  \<open>Graph._adjacency\<close> is a dictionary from nodes to lists of (neighbour, weight) pairs.
  Python dictionaries keep insertion order, and \<open>nodes()\<close> lists the keys in that order, so
  the graph is an association list; a key is found by its identifier. A weight is a finite
  float, the real number it denotes.
\<close>

type_synonym Graph = "(Node \<times> (Node \<times> real) list) list"

definition nodes :: "Graph \<Rightarrow> Node list" where
  "nodes g = map fst g"

definition has_node :: "Graph \<Rightarrow> Node \<Rightarrow> bool" where
  "has_node g n = (node_id n \<in> set (map node_id (nodes g)))"

fun neighbors :: "Graph \<Rightarrow> Node \<Rightarrow> (Node \<times> real) list" where
  "neighbors [] n = []"
| "neighbors ((k, adj) # g) n = (if node_id k = node_id n then adj else neighbors g n)"

text \<open>
  \<open>add_edge\<close> appends to the neighbour list of a key that \<open>add_node\<close> has made sure
  exists; \<open>append_entry\<close> is that append.
\<close>

definition add_node :: "Graph \<Rightarrow> Node \<Rightarrow> Graph" where
  "add_node g n = (if has_node g n then g else g @ [(n, [])])"

fun append_entry :: "Graph \<Rightarrow> Node \<Rightarrow> Node \<times> real \<Rightarrow> Graph" where
  "append_entry [] n e = []"
| "append_entry ((k, adj) # g) n e =
     (if node_id k = node_id n then (k, adj @ [e]) # g else (k, adj) # append_entry g n e)"

definition add_edge :: "Graph \<Rightarrow> Node \<Rightarrow> Node \<Rightarrow> real \<Rightarrow> bool \<Rightarrow> py_exception + Graph" where
  "add_edge g from_node to_node weight bidirectional =
     (if weight \<le> 0 then Inl (ValueError ''Edge weight must be positive'')
      else
        let g1 = add_node (add_node g from_node) to_node;
            g2 = append_entry g1 from_node (to_node, weight)
        in Inr (if bidirectional then append_entry g2 to_node (from_node, weight) else g2))"

section \<open>Heuristics (src/algorithms/heuristics.py)\<close>

definition radians :: "real \<Rightarrow> real" where
  "radians d = d * pi / 180"

definition euclidean_distance :: "Node \<Rightarrow> Node \<Rightarrow> real" where
  "euclidean_distance node1 node2 =
     (if node_eq node1 node2 then 0
      else
        let lat1 = radians (latitude node1);
            lon1 = radians (longitude node1);
            lat2 = radians (latitude node2);
            lon2 = radians (longitude node2);
            dlat = lat2 - lat1;
            dlon = lon2 - lon1;
            a = (sin (dlat / 2))\<^sup>2 + cos lat1 * cos lat2 * (sin (dlon / 2))\<^sup>2;
            c = 2 * arcsin (sqrt a);
            radius_km = 6371
        in radius_km * c)"

definition manhattan_distance :: "Node \<Rightarrow> Node \<Rightarrow> real" where
  "manhattan_distance node1 node2 =
     (if node_eq node1 node2 then 0
      else
        let lat_diff = \<bar>latitude node2 - latitude node1\<bar>;
            lon_diff = \<bar>longitude node2 - longitude node1\<bar>;
            avg_lat = (latitude node1 + latitude node2) / 2;
            lat_dist = lat_diff * 111;
            lon_dist = lon_diff * 111 * cos (radians avg_lat)
        in lat_dist + lon_dist)"

section \<open>Connectivity utilities (src/services/routing.py)\<close>



text \<open>
  \<open>is_connected\<close>: \<open>bfs_expand\<close> is the \<open>for\<close> loop over the neighbours of the
  popped node, \<open>bfs\<close> the \<open>while queue\<close> loop. The visited set holds identifiers.
\<close>

fun bfs_expand :: "(Node \<times> real) list \<Rightarrow> string set \<times> Node list \<Rightarrow> string set \<times> Node list" where
  "bfs_expand [] (visited, queue) = (visited, queue)"
| "bfs_expand ((neighbor, w) # rest) (visited, queue) =
     (if node_id neighbor \<notin> visited
      then bfs_expand rest (insert (node_id neighbor) visited, queue @ [neighbor])
      else bfs_expand rest (visited, queue))"

definition graph_ids :: "Graph \<Rightarrow> string set" where
  "graph_ids g = set (map (node_id \<circ> fst) (concat (map snd g)))"

function bfs :: "Graph \<Rightarrow> Node \<Rightarrow> string set \<times> Node list \<Rightarrow> bool" where
  "bfs graph goal (visited, []) = False"
| "bfs graph goal (visited, current # queue) =
     (if node_eq current goal then True
      else bfs graph goal (bfs_expand (neighbors graph current) (visited, queue)))"
  by pat_completeness auto

definition is_connected :: "Graph \<Rightarrow> Node \<Rightarrow> Node \<Rightarrow> bool" where
  "is_connected graph start goal =
     (if node_eq start goal then True else bfs graph goal ({node_id start}, [start]))"

text \<open>Termination of the breadth-first search: every round either visits a new identifier
  of the graph or shortens the queue.\<close>

lemma finite_graph_ids [simp]: "finite (graph_ids g)"
  by (simp add: graph_ids_def)

lemma neighbors_ids: "node_id ` fst ` set (neighbors g n) \<subseteq> graph_ids g"
  by (induction g n rule: neighbors.induct) (auto simp: graph_ids_def)

lemma bfs_expand_visited:
  "fst (bfs_expand nbrs (v, q)) = v \<union> node_id ` fst ` set nbrs"
proof (induction nbrs arbitrary: v q)
  case Nil
  show ?case by simp
next
  case (Cons e nbrs)
  obtain n w where e: "e = (n, w)" by (cases e)
  show ?case unfolding e by (auto simp add: Cons.IH)
qed

lemma bfs_expand_same:
  "fst (bfs_expand nbrs (v, q)) = v \<Longrightarrow> snd (bfs_expand nbrs (v, q)) = q"
proof (induction nbrs arbitrary: v q)
  case Nil
  then show ?case by simp
next
  case (Cons e nbrs)
  obtain n w where e: "e = (n, w)" by (cases e)
  have "node_id n \<in> v" using Cons.prems unfolding bfs_expand_visited e by auto
  then show ?case using Cons.IH [of v q] Cons.prems unfolding e by simp
qed

lemma bfs_measure:
  "(let r = bfs_expand (neighbors g c) (v, q) in (card (graph_ids g - fst r), length (snd r)),
    (card (graph_ids g - v), Suc (length q))) \<in> less_than <*lex*> less_than"
proof (cases "fst (bfs_expand (neighbors g c) (v, q)) = v")
  case True
  then show ?thesis using bfs_expand_same [OF True] by (simp add: Let_def)
next
  case False
  have "graph_ids g - fst (bfs_expand (neighbors g c) (v, q)) \<subset> graph_ids g - v"
    using False neighbors_ids [of g c] unfolding bfs_expand_visited by auto
  then have "card (graph_ids g - fst (bfs_expand (neighbors g c) (v, q))) < card (graph_ids g - v)"
    by (intro psubset_card_mono) auto
  then show ?thesis by (simp add: Let_def)
qed

termination bfs
proof (relation "inv_image (less_than <*lex*> less_than)
                   (\<lambda>(g, goal, r). (card (graph_ids g - fst r), length (snd r)))", goal_cases)
  case 1
  show ?case by (intro wf_inv_image wf_lex_prod wf_less_than)
next
  case (2 graph goal v c q)
  show ?case using bfs_measure [of graph c v q] by (simp add: Let_def)
qed

section \<open>Search core (src/algorithms/dijkstra.py, src/algorithms/astar.py)\<close>

text \<open>
  The frontier holds triples (priority, counter, node). \<open>heapq\<close> keeps them as a binary
  heap; only two facts about it matter to the search: \<open>heappush\<close> adds an entry and
  \<open>heappop\<close> removes and returns the least entry in tuple order. The heap is modelled by
  the list of its entries. The counters of the entries of one search are distinct, so the
  tuple order never reaches the node component.

  The state of a search is polymorphic in the type \<open>'v\<close> of costs and priorities. The
  two functions of the source run on floats, \<open>'v = pyfloat\<close>; the same loop over the
  real numbers, with exact sums, is what the runs are compared with in the section on
  optimality.
\<close>

type_synonym 'v pq_entry = "'v \<times> nat \<times> Node"

definition entry_less :: "('v::linorder) pq_entry \<Rightarrow> 'v pq_entry \<Rightarrow> bool" where
  "entry_less a b = (fst a < fst b \<or> (fst a = fst b \<and> fst (snd a) < fst (snd b)))"

fun least_entry :: "('v::linorder) pq_entry \<Rightarrow> 'v pq_entry list \<Rightarrow> 'v pq_entry" where
  "least_entry m [] = m"
| "least_entry m (e # es) = least_entry (if entry_less e m then e else m) es"

definition heappop :: "('v::linorder) pq_entry list \<Rightarrow> 'v pq_entry \<times> 'v pq_entry list" where
  "heappop q = (let m = least_entry (hd q) (tl q) in (m, remove1 m q))"

definition heappush :: "'v pq_entry list \<Rightarrow> 'v pq_entry \<Rightarrow> 'v pq_entry list" where
  "heappush q e = q @ [e]"

text \<open>
  The local variables of a search. \<open>distances\<close> is \<open>distances\<close> in \<open>dijkstra\<close> and
  \<open>g_score\<close> in \<open>astar\<close>; both dictionaries and the visited set are keyed by identifier.
  The three trace lists \<open>explored_nodes\<close>, \<open>open_set_nodes\<close> and \<open>explored_edges\<close> are
  the fields \<open>explored\<close>, \<open>open_set\<close> and \<open>edges\<close> (the fields of \<open>Route\<close> carry the
  names of the source). \<open>improves\<close> is the test
  \<open>neighbor not in distances or new_distance < distances[neighbor]\<close>.
\<close>

record 'v search_state =
  pq :: "'v pq_entry list"
  counter :: nat
  distances :: "string \<rightharpoonup> 'v"
  came_from :: "string \<rightharpoonup> Node"
  visited :: "string set"
  explored :: "Node list"
  open_set :: "Node list"
  edges :: "(Node \<times> Node) list"

definition init_state :: "'v \<Rightarrow> Node \<Rightarrow> ('v::zero) search_state" where
  "init_state p start =
     \<lparr>pq = [(p, 0, start)], counter = 1, distances = [node_id start \<mapsto> 0],
      came_from = Map.empty, visited = {}, explored = [], open_set = [start], edges = []\<rparr>"

definition pq_ids :: "'v pq_entry list \<Rightarrow> string set" where
  "pq_ids q = set (map (node_id \<circ> snd \<circ> snd) q)"

definition improves :: "(string \<rightharpoonup> 'v::linorder) \<Rightarrow> Node \<Rightarrow> 'v \<Rightarrow> bool" where
  "improves m n v = (case m (node_id n) of None \<Rightarrow> True | Some d \<Rightarrow> v < d)"

text \<open>
  \<open>dijkstra\<close>: \<open>dijkstra_relax\<close> is the \<open>for\<close> loop over \<open>graph.neighbors(current)\<close>,
  \<open>dijkstra_loop\<close> the \<open>while pq\<close> loop, which returns the local variables it ends with.
  \<open>current_distance + edge_weight\<close> is a sum of floats.
\<close>

fun dijkstra_relax ::
  "Node \<Rightarrow> pyfloat \<Rightarrow> (Node \<times> real) list \<Rightarrow> pyfloat search_state \<Rightarrow> pyfloat search_state" where
  "dijkstra_relax current current_distance [] s = s"
| "dijkstra_relax current current_distance ((neighbor, edge_weight) # rest) s =
     (let s1 = s\<lparr>edges := edges s @ [(current, neighbor)]\<rparr>
      in if node_id neighbor \<in> visited s1 then dijkstra_relax current current_distance rest s1
         else
           let new_distance = float_add current_distance edge_weight
           in if improves (distances s1) neighbor new_distance
              then dijkstra_relax current current_distance rest
                     (s1\<lparr>distances := (distances s1)(node_id neighbor \<mapsto> new_distance),
                         came_from := (came_from s1)(node_id neighbor \<mapsto> current),
                         pq := heappush (pq s1) (new_distance, counter s1, neighbor),
                         counter := counter s1 + 1,
                         open_set := (if node_id neighbor \<in> set (map node_id (open_set s1))
                                      then open_set s1 else open_set s1 @ [neighbor])\<rparr>)
              else dijkstra_relax current current_distance rest s1)"

function dijkstra_loop :: "Graph \<Rightarrow> Node \<Rightarrow> pyfloat search_state \<Rightarrow> pyfloat search_state" where
  "dijkstra_loop graph goal s =
     (if pq s = [] then s
      else
        let current_distance = fst (fst (heappop (pq s)));
            current = snd (snd (fst (heappop (pq s))));
            s1 = s\<lparr>pq := snd (heappop (pq s))\<rparr>
        in if node_id current \<in> visited s1 then dijkstra_loop graph goal s1
           else
             let s2 = s1\<lparr>visited := insert (node_id current) (visited s1),
                         explored := explored s1 @ [current]\<rparr>
             in if node_eq current goal then s2
                else dijkstra_loop graph goal
                       (dijkstra_relax current current_distance (neighbors graph current) s2))"
  by pat_completeness auto

text \<open>
  Termination of the loop: an iteration either finalises one more identifier out of those of
  the neighbour entries and of the frontier, or shortens the frontier. \<open>relax_edge\<close> is one
  iteration of the \<open>for\<close> loop, with the sum (\<open>add\<close>), the cost of the current node and
  the priority of the pushed entry as parameters; both \<open>for\<close> loops are folds of it.
\<close>

definition loop_measure :: "Graph \<Rightarrow> 'v search_state \<Rightarrow> nat \<times> nat" where
  "loop_measure g s = (card ((graph_ids g \<union> pq_ids (pq s)) - visited s), length (pq s))"

fun relax_edge ::
  "('v \<Rightarrow> real \<Rightarrow> 'v) \<Rightarrow> ('v \<Rightarrow> Node \<Rightarrow> 'v) \<Rightarrow> Node \<Rightarrow> 'v \<Rightarrow> ('v::linorder) search_state
     \<Rightarrow> Node \<times> real \<Rightarrow> 'v search_state" where
  "relax_edge add prio current base s (neighbor, w) =
     (if node_id neighbor \<in> visited s then s\<lparr>edges := edges s @ [(current, neighbor)]\<rparr>
      else if improves (distances s) neighbor (add base w)
      then s\<lparr>edges := edges s @ [(current, neighbor)],
             distances := (distances s)(node_id neighbor \<mapsto> add base w),
             came_from := (came_from s)(node_id neighbor \<mapsto> current),
             pq := heappush (pq s) (prio (add base w) neighbor, counter s, neighbor),
             counter := counter s + 1,
             open_set := (if node_id neighbor \<in> set (map node_id (open_set s))
                          then open_set s else open_set s @ [neighbor])\<rparr>
      else s\<lparr>edges := edges s @ [(current, neighbor)]\<rparr>)"

lemma dijkstra_relax_Cons:
  "dijkstra_relax c d (e # rest) s
     = dijkstra_relax c d rest (relax_edge float_add (\<lambda>t n. t) c d s e)"
  by (cases e) (simp add: Let_def)

lemma dijkstra_relax_eq:
  "dijkstra_relax c d nbrs s = foldl (relax_edge float_add (\<lambda>t n. t) c d) s nbrs"
proof (induction nbrs arbitrary: s)
  case Nil
  show ?case by simp
next
  case (Cons e nbrs)
  show ?case by (simp only: dijkstra_relax_Cons Cons.IH foldl_Cons)
qed

lemma least_entry_mem: "least_entry m es \<in> set (m # es)"
  by (induction es arbitrary: m) auto

lemma heappop_mem: "q \<noteq> [] \<Longrightarrow> fst (heappop q) \<in> set q"
  using least_entry_mem [of "hd q" "tl q"] by (cases q) (auto simp: heappop_def Let_def)

lemma heappop_length: "q \<noteq> [] \<Longrightarrow> length (snd (heappop q)) < length q"
proof -
  assume q: "q \<noteq> []"
  from heappop_mem [OF q] have "least_entry (hd q) (tl q) \<in> set q"
    by (simp add: heappop_def Let_def)
  then have "length (snd (heappop q)) = length q - 1"
    by (simp add: heappop_def Let_def length_remove1)
  with q show ?thesis by (cases q) auto
qed

lemma heappop_set: "set (snd (heappop q)) \<subseteq> set q"
  using set_remove1_subset by (simp add: heappop_def Let_def)

lemma relax_edge_visited [simp]: "visited (relax_edge add prio c d s e) = visited s"
  by (cases e) simp

lemma relax_all_visited [simp]: "visited (foldl (relax_edge add prio c d) s nbrs) = visited s"
  by (induction nbrs arbitrary: s) auto

lemma relax_edge_pq_ids:
  "pq_ids (pq (relax_edge add prio c d s e)) \<subseteq> insert (node_id (fst e)) (pq_ids (pq s))"
  by (cases e) (auto simp: pq_ids_def heappush_def)

lemma relax_all_pq_ids:
  "pq_ids (pq (foldl (relax_edge add prio c d) s nbrs)) \<subseteq> pq_ids (pq s) \<union> node_id ` fst ` set nbrs"
proof (induction nbrs arbitrary: s)
  case Nil
  show ?case by simp
next
  case (Cons e nbrs)
  show ?case
    using Cons.IH [of "relax_edge add prio c d s e"] relax_edge_pq_ids [of add prio c d s e]
    by auto
qed

lemma pq_ids_mono: "set q \<subseteq> set q' \<Longrightarrow> pq_ids q \<subseteq> pq_ids q'"
  by (auto simp: pq_ids_def)

lemma finite_pq_ids [simp]: "finite (pq_ids q)"
  by (simp add: pq_ids_def)

text \<open>A stale entry is dropped: the frontier shrinks and nothing else changes.\<close>

lemma measure_stale:
  assumes "pq s \<noteq> []"
  shows "(loop_measure g (s\<lparr>pq := snd (heappop (pq s))\<rparr>), loop_measure g s)
           \<in> less_than <*lex*> less_than"
proof -
  have "pq_ids (snd (heappop (pq s))) \<subseteq> pq_ids (pq s)"
    by (rule pq_ids_mono [OF heappop_set])
  then have "card ((graph_ids g \<union> pq_ids (snd (heappop (pq s)))) - visited s)
               \<le> card ((graph_ids g \<union> pq_ids (pq s)) - visited s)"
    by (intro card_mono) auto
  with heappop_length [OF assms] show ?thesis
    by (auto simp: loop_measure_def)
qed

text \<open>A fresh node is finalised: one more identifier of the finite universe is visited.\<close>

lemma measure_fresh:
  assumes ne: "pq s \<noteq> []"
    and cur: "node_id (snd (snd (fst (heappop (pq s))))) \<notin> visited s"
    and vis: "visited s' = insert (node_id (snd (snd (fst (heappop (pq s)))))) (visited s)"
    and sub: "pq_ids (pq s') \<subseteq> pq_ids (snd (heappop (pq s))) \<union> graph_ids g"
  shows "(loop_measure g s', loop_measure g s) \<in> less_than <*lex*> less_than"
proof -
  let ?c = "node_id (snd (snd (fst (heappop (pq s)))))"
  have c: "?c \<in> pq_ids (pq s)"
    using heappop_mem [OF ne] by (auto simp: pq_ids_def)
  have "pq_ids (snd (heappop (pq s))) \<subseteq> pq_ids (pq s)"
    by (rule pq_ids_mono [OF heappop_set])
  with sub have "(graph_ids g \<union> pq_ids (pq s')) - visited s'
                   \<subset> (graph_ids g \<union> pq_ids (pq s)) - visited s"
    using c cur vis by auto
  then have "card ((graph_ids g \<union> pq_ids (pq s')) - visited s')
               < card ((graph_ids g \<union> pq_ids (pq s)) - visited s)"
    by (intro psubset_card_mono) auto
  then show ?thesis by (simp add: loop_measure_def)
qed

termination dijkstra_loop
proof (relation "inv_image (less_than <*lex*> less_than) (\<lambda>(g, goal, s). loop_measure g s)", goal_cases)
  case 1
  show ?case by (intro wf_inv_image wf_lex_prod wf_less_than)
next
  case (2 graph goal s d c s1)
  then show ?case using measure_stale [of s graph] by simp
next
  case (3 graph goal s d c s1 s2)
  have "(loop_measure graph (dijkstra_relax c d (neighbors graph c) s2), loop_measure graph s)
          \<in> less_than <*lex*> less_than"
  proof (rule measure_fresh)
    show "pq s \<noteq> []" using 3 by simp
    show "node_id (snd (snd (fst (heappop (pq s))))) \<notin> visited s" using 3 by simp
    show "visited (dijkstra_relax c d (neighbors graph c) s2)
            = insert (node_id (snd (snd (fst (heappop (pq s)))))) (visited s)"
      using 3 by (simp add: dijkstra_relax_eq)
    show "pq_ids (pq (dijkstra_relax c d (neighbors graph c) s2))
            \<subseteq> pq_ids (snd (heappop (pq s))) \<union> graph_ids graph"
      using relax_all_pq_ids [of float_add "\<lambda>t n. t" c d s2 "neighbors graph c"]
            neighbors_ids [of graph c] 3
      by (auto simp: dijkstra_relax_eq)
  qed
  then show ?case by simp
qed

declare dijkstra_loop.simps [simp del]

text \<open>
  \<open>astar\<close>: the heuristic argument is either a callable, a total function from two nodes
  to a finite float, or an object that is not callable. \<open>astar_relax\<close> reads
  \<open>g_score[current]\<close> in every iteration that reaches it; a missing key raises
  \<open>KeyError\<close>. Both \<open>g_score[current] + edge_weight\<close> and
  \<open>tentative_g_score + heuristic(neighbor, goal)\<close> are sums of floats.
\<close>

datatype heuristic_arg = Callable "Node \<Rightarrow> Node \<Rightarrow> real" | NotCallable

fun astar_relax ::
  "(Node \<Rightarrow> Node \<Rightarrow> real) \<Rightarrow> Node \<Rightarrow> Node \<Rightarrow> (Node \<times> real) list \<Rightarrow> pyfloat search_state
     \<Rightarrow> py_exception + pyfloat search_state" where
  "astar_relax heuristic goal current [] s = Inr s"
| "astar_relax heuristic goal current ((neighbor, edge_weight) # rest) s =
     (let s1 = s\<lparr>edges := edges s @ [(current, neighbor)]\<rparr>
      in if node_id neighbor \<in> visited s1 then astar_relax heuristic goal current rest s1
         else
           case distances s1 (node_id current) of
             None \<Rightarrow> Inl KeyError
           | Some g_current \<Rightarrow>
               let tentative_g_score = float_add g_current edge_weight
               in if improves (distances s1) neighbor tentative_g_score
                  then astar_relax heuristic goal current rest
                         (s1\<lparr>distances := (distances s1)(node_id neighbor \<mapsto> tentative_g_score),
                             came_from := (came_from s1)(node_id neighbor \<mapsto> current),
                             pq := heappush (pq s1)
                                     (float_add tentative_g_score (heuristic neighbor goal),
                                      counter s1, neighbor),
                             counter := counter s1 + 1,
                             open_set := (if node_id neighbor \<in> set (map node_id (open_set s1))
                                          then open_set s1 else open_set s1 @ [neighbor])\<rparr>)
                  else astar_relax heuristic goal current rest s1)"

function astar_loop ::
  "(Node \<Rightarrow> Node \<Rightarrow> real) \<Rightarrow> Graph \<Rightarrow> Node \<Rightarrow> pyfloat search_state
     \<Rightarrow> py_exception + pyfloat search_state" where
  "astar_loop heuristic graph goal s =
     (if pq s = [] then Inr s
      else
        let current = snd (snd (fst (heappop (pq s))));
            s1 = s\<lparr>pq := snd (heappop (pq s))\<rparr>
        in if node_id current \<in> visited s1 then astar_loop heuristic graph goal s1
           else
             let s2 = s1\<lparr>visited := insert (node_id current) (visited s1),
                         explored := explored s1 @ [current]\<rparr>
             in if node_eq current goal then Inr s2
                else
                  case astar_relax heuristic goal current (neighbors graph current) s2 of
                    Inl e \<Rightarrow> Inl e
                  | Inr s3 \<Rightarrow> astar_loop heuristic graph goal s3)"
  by pat_completeness auto

lemma relax_edge_distances_visited:
  "k \<in> visited s \<Longrightarrow> distances (relax_edge add prio c d s e) k = distances s k"
  by (cases e) auto

lemma astar_relax_eq:
  "node_id c \<in> visited s \<Longrightarrow> astar_relax h goal c nbrs s = Inr s' \<Longrightarrow>
   s' = foldl (relax_edge float_add (\<lambda>t n. float_add t (h n goal)) c
                 (the (distances s (node_id c)))) s nbrs"
proof (induction nbrs arbitrary: s)
  case Nil
  then show ?case by simp
next
  case (Cons e nbrs)
  obtain n w where e: "e = (n, w)" by (cases e)
  let ?r = "relax_edge float_add (\<lambda>t n. float_add t (h n goal)) c
              (the (distances s (node_id c))) s e"
  have v: "node_id c \<in> visited ?r" using Cons.prems(1) by simp
  have d: "distances ?r (node_id c) = distances s (node_id c)"
    using Cons.prems(1) by (rule relax_edge_distances_visited)
  have "astar_relax h goal c nbrs ?r = Inr s'"
    using Cons.prems(2) unfolding e
    by (auto simp: Let_def split: if_splits option.splits)
  from Cons.IH [OF v this] show ?case by (simp add: d)
qed

termination astar_loop
proof (relation "inv_image (less_than <*lex*> less_than) (\<lambda>(h, g, goal, s). loop_measure g s)", goal_cases)
  case 1
  show ?case by (intro wf_inv_image wf_lex_prod wf_less_than)
next
  case (2 h graph goal s c s1)
  then show ?case using measure_stale [of s graph] by simp
next
  case (3 h graph goal s c s1 s2 s3)
  have v: "node_id c \<in> visited s2" using 3 by simp
  have eq: "s3 = foldl (relax_edge float_add (\<lambda>t n. float_add t (h n goal)) c
                          (the (distances s2 (node_id c)))) s2 (neighbors graph c)"
    using astar_relax_eq [OF v] 3 by simp
  have "(loop_measure graph s3, loop_measure graph s) \<in> less_than <*lex*> less_than"
  proof (rule measure_fresh)
    show "pq s \<noteq> []" using 3 by simp
    show "node_id (snd (snd (fst (heappop (pq s))))) \<notin> visited s" using 3 by simp
    show "visited s3 = insert (node_id (snd (snd (fst (heappop (pq s)))))) (visited s)"
      using 3 by (simp add: eq)
    have "pq_ids (pq s3) \<subseteq> pq_ids (pq s2) \<union> node_id ` fst ` set (neighbors graph c)"
      unfolding eq by (rule relax_all_pq_ids)
    then show "pq_ids (pq s3) \<subseteq> pq_ids (snd (heappop (pq s))) \<union> graph_ids graph"
      using neighbors_ids [of graph c] 3 by auto
  qed
  then show ?case by simp
qed

declare astar_loop.simps [simp del]

text \<open>The reconstruction loop follows parent links; on a cyclic parent map it never ends.\<close>

partial_function (option) reconstruct_path ::
  "(string \<rightharpoonup> Node) \<Rightarrow> Node \<Rightarrow> Node \<Rightarrow> Node list \<Rightarrow> (py_exception + Node list) option" where
  "reconstruct_path cf start current_node p =
     (if \<not> node_eq current_node start
      then (case cf (node_id current_node) of
              None \<Rightarrow> Some (Inl KeyError)
            | Some parent \<Rightarrow> reconstruct_path cf start parent (p @ [current_node]))
      else Some (Inr (rev (p @ [start]))))"

declare reconstruct_path.simps [code]

text \<open>
  The statements after the loop are the same in both functions, up to the name of the
  algorithm: \<open>finish\<close> is the failure check, the reconstruction and the construction of
  the route; \<open>trivial_route\<close> is the shortcut for start equal to goal. The two readings of
  \<open>time.time()\<close> enter as the number \<open>elapsed\<close> of milliseconds between them, a natural
  number; the \<open>print\<close> statements are left out. A search function returns \<open>None\<close> when it
  does not return, \<open>Some (Inl e)\<close> when it raises \<open>e\<close>, and \<open>Some (Inr r)\<close> when it
  returns \<open>r\<close>.
\<close>

definition no_path_message :: "Node \<Rightarrow> Node \<Rightarrow> string" where
  "no_path_message start goal =
     ''No path found from '' @ node_id start @ '' to '' @ node_id goal"

definition finish ::
  "string \<Rightarrow> nat \<Rightarrow> Node \<Rightarrow> Node \<Rightarrow> pyfloat search_state
     \<Rightarrow> (py_exception + PathfindingResult) option" where
  "finish name elapsed start goal s =
     (if came_from s (node_id goal) = None \<and> \<not> node_eq goal start
      then Some (PathfindingResult_init False None (Some (no_path_message start goal)))
      else
        case reconstruct_path (came_from s) start goal [] of
          None \<Rightarrow> None
        | Some (Inl e) \<Rightarrow> Some (Inl e)
        | Some (Inr p) \<Rightarrow>
            (case distances s (node_id goal) of
               None \<Rightarrow> Some (Inl KeyError)
             | Some d \<Rightarrow>
                 (case Route_init p d name (int elapsed) (int (length (explored s)))
                         (explored s) (open_set s) (edges s) of
                    Inl e \<Rightarrow> Some (Inl e)
                  | Inr r \<Rightarrow> Some (PathfindingResult_init True (Some r) None))))"

definition trivial_route :: "string \<Rightarrow> nat \<Rightarrow> Node \<Rightarrow> py_exception + PathfindingResult" where
  "trivial_route name elapsed start =
     (case Route_init [start] 0 name (int elapsed) 1 [start] [start] [] of
        Inl e \<Rightarrow> Inl e
      | Inr r \<Rightarrow> PathfindingResult_init True (Some r) None)"

definition dijkstra :: "nat \<Rightarrow> Graph \<Rightarrow> Node \<Rightarrow> Node \<Rightarrow> (py_exception + PathfindingResult) option" where
  "dijkstra elapsed graph start goal =
     (if \<not> has_node graph start
      then Some (PathfindingResult_init False None
                   (Some (''Start node '' @ node_id start @ '' not found in graph'')))
      else if \<not> has_node graph goal
      then Some (PathfindingResult_init False None
                   (Some (''Goal node '' @ node_id goal @ '' not found in graph'')))
      else if node_eq start goal then Some (trivial_route ''Dijkstra'' elapsed start)
      else finish ''Dijkstra'' elapsed start goal
             (dijkstra_loop graph goal (init_state 0 start)))"

definition astar ::
  "nat \<Rightarrow> Graph \<Rightarrow> Node \<Rightarrow> Node \<Rightarrow> heuristic_arg \<Rightarrow> (py_exception + PathfindingResult) option" where
  "astar elapsed graph start goal heuristic =
     (if \<not> has_node graph start
      then Some (PathfindingResult_init False None
                   (Some (''Start node '' @ node_id start @ '' not found in graph'')))
      else if \<not> has_node graph goal
      then Some (PathfindingResult_init False None
                   (Some (''Goal node '' @ node_id goal @ '' not found in graph'')))
      else case heuristic of
        NotCallable \<Rightarrow>
          Some (PathfindingResult_init False None (Some ''Heuristic must be a callable function''))
      | Callable h \<Rightarrow>
          if node_eq start goal then Some (trivial_route ''A*'' elapsed start)
          else (case astar_loop h graph goal (init_state (Fin (h start goal)) start) of
                  Inl e \<Rightarrow> Some (Inl e)
                | Inr s \<Rightarrow> finish ''A*'' elapsed start goal s))"

section \<open>The shared shape of the two loops\<close>

text \<open>
  One iteration of either \<open>while pq\<close> loop pops the least entry and, unless the entry is
  stale or its node is the goal, runs \<open>relax_edge\<close> over the neighbours of the node. The
  two loops differ in the cost of the current node that the relaxation starts from
  (\<open>base\<close>: the popped priority in \<open>dijkstra\<close>, \<open>g_score[current]\<close> in \<open>astar\<close>) and in
  the priority of a pushed entry (\<open>prio\<close>). \<open>search_loop\<close> has both as parameters, and
  the sum as a third (\<open>add\<close>); the two loops of the source are its instances with the sum
  of floats.
\<close>

definition popped :: "('v::linorder) search_state \<Rightarrow> 'v pq_entry" where
  "popped s = fst (heappop (pq s))"

definition current_of :: "('v::linorder) search_state \<Rightarrow> Node" where
  "current_of s = snd (snd (popped s))"

definition pop_state :: "('v::linorder) search_state \<Rightarrow> 'v search_state" where
  "pop_state s = s\<lparr>pq := snd (heappop (pq s))\<rparr>"

definition visit_state :: "('v::linorder) search_state \<Rightarrow> 'v search_state" where
  "visit_state s = s\<lparr>pq := snd (heappop (pq s)),
                      visited := insert (node_id (current_of s)) (visited s),
                      explored := explored s @ [current_of s]\<rparr>"

definition relax_all ::
  "('v \<Rightarrow> real \<Rightarrow> 'v) \<Rightarrow> ('v \<Rightarrow> Node \<Rightarrow> 'v) \<Rightarrow> Node \<Rightarrow> 'v \<Rightarrow> (Node \<times> real) list
     \<Rightarrow> ('v::linorder) search_state \<Rightarrow> 'v search_state" where
  "relax_all add prio c d nbrs s = foldl (relax_edge add prio c d) s nbrs"

function search_loop ::
  "('v \<Rightarrow> real \<Rightarrow> 'v) \<Rightarrow> ('v pq_entry \<Rightarrow> 'v search_state \<Rightarrow> 'v) \<Rightarrow> ('v \<Rightarrow> Node \<Rightarrow> 'v) \<Rightarrow> Graph \<Rightarrow> Node
     \<Rightarrow> ('v::linorder) search_state \<Rightarrow> 'v search_state" where
  "search_loop add base prio g goal s =
     (if pq s = [] then s
      else if node_id (current_of s) \<in> visited s then search_loop add base prio g goal (pop_state s)
      else if node_eq (current_of s) goal then visit_state s
      else search_loop add base prio g goal
             (relax_all add prio (current_of s) (base (popped s) (visit_state s))
                (neighbors g (current_of s)) (visit_state s)))"
  by pat_completeness auto

termination search_loop
proof (relation "inv_image (less_than <*lex*> less_than) (\<lambda>(a, b, p, g, goal, s). loop_measure g s)",
       goal_cases)
  case 1
  show ?case by (intro wf_inv_image wf_lex_prod wf_less_than)
next
  case (2 add base prio g goal s)
  then show ?case using measure_stale [of s g] by (simp add: pop_state_def)
next
  case (3 add base prio g goal s)
  let ?s' = "relax_all add prio (current_of s) (base (popped s) (visit_state s))
               (neighbors g (current_of s)) (visit_state s)"
  have "(loop_measure g ?s', loop_measure g s) \<in> less_than <*lex*> less_than"
  proof (rule measure_fresh)
    show "pq s \<noteq> []" using 3 by simp
    show "node_id (snd (snd (fst (heappop (pq s))))) \<notin> visited s"
      using 3 by (simp add: current_of_def popped_def)
    show "visited ?s' = insert (node_id (snd (snd (fst (heappop (pq s)))))) (visited s)"
      by (simp add: relax_all_def visit_state_def current_of_def popped_def)
    have "pq_ids (pq ?s') \<subseteq> pq_ids (pq (visit_state s))
            \<union> node_id ` fst ` set (neighbors g (current_of s))"
      unfolding relax_all_def by (rule relax_all_pq_ids)
    then show "pq_ids (pq ?s') \<subseteq> pq_ids (snd (heappop (pq s))) \<union> graph_ids g"
      using neighbors_ids [of g "current_of s"] by (auto simp: visit_state_def)
  qed
  then show ?case by simp
qed

declare search_loop.simps [simp del]

text \<open>The proof rule of the loop: an invariant of its three kinds of iteration.\<close>

lemma search_loop_rule:
  assumes init: "I s"
    and stale: "\<And>s. I s \<Longrightarrow> pq s \<noteq> [] \<Longrightarrow> node_id (current_of s) \<in> visited s \<Longrightarrow> I (pop_state s)"
    and found: "\<And>s. I s \<Longrightarrow> pq s \<noteq> [] \<Longrightarrow> node_id (current_of s) \<notin> visited s \<Longrightarrow>
                  node_eq (current_of s) goal \<Longrightarrow> Q (visit_state s)"
    and expand: "\<And>s. I s \<Longrightarrow> pq s \<noteq> [] \<Longrightarrow> node_id (current_of s) \<notin> visited s \<Longrightarrow>
                  \<not> node_eq (current_of s) goal \<Longrightarrow>
                  I (relax_all add prio (current_of s) (base (popped s) (visit_state s))
                       (neighbors g (current_of s)) (visit_state s))"
    and empty: "\<And>s. I s \<Longrightarrow> pq s = [] \<Longrightarrow> Q s"
  shows "Q (search_loop add base prio g goal s)"
  using assms
proof (induction add base prio g goal s rule: search_loop.induct)
  case (1 add base prio g goal s)
  note I = "1.prems"(1) and stale = "1.prems"(2) and found = "1.prems"(3)
    and expand = "1.prems"(4) and empty = "1.prems"(5)
  show ?case
  proof (cases "pq s = []")
    case True
    then show ?thesis using empty [OF I] by (simp add: search_loop.simps)
  next
    case ne: False
    show ?thesis
    proof (cases "node_id (current_of s) \<in> visited s")
      case True
      have "Q (search_loop add base prio g goal (pop_state s))"
        by (rule "1.IH"(1) [OF ne True stale [OF I ne True]]) (fact stale found expand empty)+
      then show ?thesis using ne True by (simp add: search_loop.simps [of _ _ _ _ _ s])
    next
      case fresh: False
      show ?thesis
      proof (cases "node_eq (current_of s) goal")
        case True
        then show ?thesis using found [OF I ne fresh True] ne fresh
          by (simp add: search_loop.simps [of _ _ _ _ _ s])
      next
        case False
        have "Q (search_loop add base prio g goal
                   (relax_all add prio (current_of s) (base (popped s) (visit_state s))
                      (neighbors g (current_of s)) (visit_state s)))"
          by (rule "1.IH"(2) [OF ne fresh False expand [OF I ne fresh False]])
             (fact stale found expand empty)+
        then show ?thesis using ne fresh False by (simp add: search_loop.simps [of _ _ _ _ _ s])
      qed
    qed
  qed
qed

text \<open>The loop of \<open>dijkstra\<close> is the instance with the popped priority as base cost.\<close>

lemma dijkstra_loop_eq:
  "dijkstra_loop g goal s = search_loop float_add (\<lambda>e s. fst e) (\<lambda>t n. t) g goal s"
proof (induction float_add "\<lambda>(e::pyfloat pq_entry) (s::pyfloat search_state). fst e"
         "\<lambda>(t::pyfloat) (n::Node). t" g goal s
         rule: search_loop.induct)
  case (1 g goal s)
  show ?case
  proof (cases "pq s = []")
    case True
    then show ?thesis by (simp add: search_loop.simps dijkstra_loop.simps)
  next
    case ne: False
    show ?thesis
    proof (cases "node_id (current_of s) \<in> visited s")
      case True
      then show ?thesis using "1"(1) [OF ne True] ne
        by (subst dijkstra_loop.simps, subst search_loop.simps)
           (simp add: Let_def current_of_def popped_def pop_state_def)
    next
      case fresh: False
      show ?thesis
      proof (cases "node_eq (current_of s) goal")
        case True
        then show ?thesis using ne fresh
          by (subst dijkstra_loop.simps, subst search_loop.simps)
             (simp add: Let_def current_of_def popped_def visit_state_def)
      next
        case False
        then show ?thesis using "1"(2) [OF ne fresh False] ne fresh
          by (subst dijkstra_loop.simps, subst search_loop.simps)
             (simp add: Let_def current_of_def popped_def visit_state_def relax_all_def
                        dijkstra_relax_eq)
      qed
    qed
  qed
qed

section \<open>Invariants of the search\<close>

lemma pop_state_simps [simp]:
  "pq (pop_state s) = snd (heappop (pq s))"
  "visited (pop_state s) = visited s"
  "explored (pop_state s) = explored s"
  "distances (pop_state s) = distances s"
  "came_from (pop_state s) = came_from s"
  "edges (pop_state s) = edges s"
  by (simp_all add: pop_state_def)

lemma visit_state_simps [simp]:
  "pq (visit_state s) = snd (heappop (pq s))"
  "visited (visit_state s) = insert (node_id (current_of s)) (visited s)"
  "explored (visit_state s) = explored s @ [current_of s]"
  "distances (visit_state s) = distances s"
  "came_from (visit_state s) = came_from s"
  "edges (visit_state s) = edges s"
  by (simp_all add: visit_state_def)

definition relaxes ::
  "('v \<Rightarrow> real \<Rightarrow> 'v) \<Rightarrow> ('v::linorder) search_state \<Rightarrow> 'v \<Rightarrow> Node \<times> real \<Rightarrow> bool" where
  "relaxes add s d e = (node_id (fst e) \<notin> visited s \<and> improves (distances s) (fst e) (add d (snd e)))"

lemma relax_edge_simps:
  "pq (relax_edge add prio c d s e) =
     (if relaxes add s d e then pq s @ [(prio (add d (snd e)) (fst e), counter s, fst e)] else pq s)"
  "distances (relax_edge add prio c d s e) =
     (if relaxes add s d e then (distances s)(node_id (fst e) \<mapsto> add d (snd e)) else distances s)"
  "came_from (relax_edge add prio c d s e) =
     (if relaxes add s d e then (came_from s)(node_id (fst e) \<mapsto> c) else came_from s)"
  "explored (relax_edge add prio c d s e) = explored s"
  "edges (relax_edge add prio c d s e) = edges s @ [(c, fst e)]"
  "counter (relax_edge add prio c d s e) = (if relaxes add s d e then counter s + 1 else counter s)"
  by (cases e; simp add: relaxes_def heappush_def)+

lemma relax_all_Nil [simp]: "relax_all add prio c d [] s = s"
  by (simp add: relax_all_def)

lemma relax_all_Cons [simp]:
  "relax_all add prio c d (e # nbrs) s = relax_all add prio c d nbrs (relax_edge add prio c d s e)"
  by (simp add: relax_all_def)

lemma relax_all_induct:
  assumes "P s"
    and "\<And>s e. P s \<Longrightarrow> e \<in> set nbrs \<Longrightarrow> P (relax_edge add prio c d s e)"
  shows "P (relax_all add prio c d nbrs s)"
proof -
  have "set xs \<subseteq> set nbrs \<Longrightarrow> P s \<Longrightarrow> P (relax_all add prio c d xs s)" for xs s
  proof (induction xs arbitrary: s)
    case Nil
    then show ?case by simp
  next
    case (Cons e xs)
    then show ?case using assms(2) by simp
  qed
  then show ?thesis using assms(1) by blast
qed

lemma relax_all_simps [simp]:
  "visited (relax_all add prio c d nbrs s) = visited s"
  "explored (relax_all add prio c d nbrs s) = explored s"
  "edges (relax_all add prio c d nbrs s) = edges s @ map (\<lambda>e. (c, fst e)) nbrs"
  by (induction nbrs arbitrary: s) (simp_all add: relax_edge_simps)

lemma heappop_keeps:
  "e \<in> set q \<Longrightarrow> e \<noteq> fst (heappop q) \<Longrightarrow> e \<in> set (snd (heappop q))"
  by (simp add: heappop_def Let_def)

lemma current_in_pq: "pq s \<noteq> [] \<Longrightarrow> node_id (current_of s) \<in> pq_ids (pq s)"
  using heappop_mem [of "pq s"] by (auto simp: current_of_def popped_def pq_ids_def)

lemma pq_ids_pop: "pq_ids (snd (heappop q)) \<subseteq> pq_ids q"
  by (rule pq_ids_mono [OF heappop_set])

lemma pq_ids_pop_other:
  assumes "n \<in> pq_ids (pq s)" and "n \<noteq> node_id (current_of s)"
  shows "n \<in> pq_ids (snd (heappop (pq s)))"
proof -
  from assms(1) obtain e where e: "e \<in> set (pq s)" "node_id (snd (snd e)) = n"
    by (auto simp: pq_ids_def)
  with assms(2) have "e \<noteq> fst (heappop (pq s))" by (auto simp: current_of_def popped_def)
  from heappop_keeps [OF e(1) this] e(2) show ?thesis by (auto simp: pq_ids_def)
qed

lemma neighbors_cong: "node_id a = node_id b \<Longrightarrow> neighbors g a = neighbors g b"
  by (induction g a rule: neighbors.induct) auto

subsection \<open>The parent tree\<close>

definition nbr_ids :: "Graph \<Rightarrow> Node \<Rightarrow> string set" where
  "nbr_ids g u = node_id ` fst ` set (neighbors g u)"

fun contiguous :: "Graph \<Rightarrow> Node list \<Rightarrow> bool" where
  "contiguous g [] = True"
| "contiguous g [x] = True"
| "contiguous g (x # y # rest) = (node_id y \<in> nbr_ids g x \<and> contiguous g (y # rest))"

inductive tree_path :: "Graph \<Rightarrow> (string \<rightharpoonup> Node) \<Rightarrow> Node \<Rightarrow> Node \<Rightarrow> Node list \<Rightarrow> bool"
  for g cf start where
  root: "node_eq x start \<Longrightarrow> tree_path g cf start x [start]"
| link: "\<not> node_eq x start \<Longrightarrow> cf (node_id x) = Some q \<Longrightarrow> tree_path g cf start q p \<Longrightarrow>
         node_id x \<in> nbr_ids g q \<Longrightarrow> tree_path g cf start x (p @ [x])"

lemma contiguous_snoc:
  "p \<noteq> [] \<Longrightarrow> contiguous g p \<Longrightarrow> node_id x \<in> nbr_ids g (last p) \<Longrightarrow> contiguous g (p @ [x])"
proof (induction g p rule: contiguous.induct)
  case (1 g)
  then show ?case by simp
next
  case (2 g y)
  then show ?case by simp
next
  case (3 g y z rest)
  then show ?case by simp
qed

lemma nbr_ids_cong: "node_eq a b \<Longrightarrow> nbr_ids g a = nbr_ids g b"
  by (simp add: nbr_ids_def node_eq_def neighbors_cong [of a b])

lemma tree_path_props:
  assumes "tree_path g cf start x p"
  shows "p \<noteq> [] \<and> hd p = start \<and> node_eq (last p) x \<and> contiguous g p"
  using assms
proof (induction rule: tree_path.induct)
  case (root x)
  then show ?case by (simp add: node_eq_def)
next
  case (link x q p)
  then have "node_id x \<in> nbr_ids g (last p)" using nbr_ids_cong [of "last p" q g] by simp
  with link show ?case by (simp add: contiguous_snoc node_eq_def)
qed

lemma tree_path_stable:
  assumes "tree_path g cf start x p"
    and "\<And>y. y \<in> set p \<Longrightarrow> cf' (node_id y) = cf (node_id y)"
  shows "tree_path g cf' start x p"
  using assms
proof (induction rule: tree_path.induct)
  case (root x)
  then show ?case by (simp add: tree_path.root)
next
  case (link x q p)
  have "cf' (node_id x) = Some q" using link.hyps(2) link.prems [of x] by simp
  moreover have "tree_path g cf' start q p" using link.IH link.prems by simp
  ultimately show ?case using link.hyps(1,4) by (blast intro: tree_path.link)
qed

lemma reconstruct_path_tree:
  assumes "tree_path g cf start x p"
  shows "reconstruct_path cf start x acc = Some (Inr (p @ rev acc))"
  using assms
proof (induction arbitrary: acc rule: tree_path.induct)
  case (root x)
  then show ?case by (subst reconstruct_path.simps) simp
next
  case (link x q p)
  then show ?case by (subst reconstruct_path.simps) simp
qed

definition tree_ok :: "Graph \<Rightarrow> Node \<Rightarrow> 'v search_state \<Rightarrow> bool" where
  "tree_ok g start s =
     (\<forall>x \<in> set (explored s). \<exists>p. tree_path g (came_from s) start x p
                                  \<and> node_id ` set p \<subseteq> visited s)"

definition parent_ok :: "Graph \<Rightarrow> Node \<Rightarrow> 'v search_state \<Rightarrow> bool" where
  "parent_ok g start s =
     (\<forall>n q. came_from s n = Some q \<longrightarrow>
        q \<in> set (explored s) \<and> n \<in> nbr_ids g q \<and> n \<noteq> node_id start)"

definition frontier_ok :: "Node \<Rightarrow> 'v search_state \<Rightarrow> bool" where
  "frontier_ok start s =
     (pq_ids (pq s) \<subseteq> dom (distances s)
      \<and> (\<forall>n. n \<in> dom (distances s) \<longleftrightarrow> n = node_id start \<or> n \<in> dom (came_from s))
      \<and> (\<forall>n \<in> dom (distances s). n \<notin> visited s \<longrightarrow> n \<in> pq_ids (pq s))
      \<and> visited s \<subseteq> dom (distances s))"

definition visited_ok :: "Node \<Rightarrow> 'v search_state \<Rightarrow> bool" where
  "visited_ok start s =
     (node_id ` set (explored s) = visited s
      \<and> ((visited s = {} \<and> pq_ids (pq s) \<subseteq> {node_id start}) \<or> node_id start \<in> visited s))"

definition core_inv :: "Graph \<Rightarrow> Node \<Rightarrow> 'v search_state \<Rightarrow> bool" where
  "core_inv g start s =
     (tree_ok g start s \<and> parent_ok g start s \<and> frontier_ok start s \<and> visited_ok start s)"

lemma core_init: "core_inv g start (init_state p start)"
  by (simp add: core_inv_def tree_ok_def parent_ok_def frontier_ok_def visited_ok_def
                init_state_def pq_ids_def)

text \<open>Dropping a stale entry.\<close>

lemma core_pop:
  assumes inv: "core_inv g start s" and ne: "pq s \<noteq> []"
    and stale: "node_id (current_of s) \<in> visited s"
  shows "core_inv g start (pop_state s)"
proof -
  have "tree_ok g start (pop_state s)" "parent_ok g start (pop_state s)"
    using inv by (simp_all add: core_inv_def tree_ok_def parent_ok_def)
  moreover have "frontier_ok start (pop_state s)"
  proof -
    have f: "frontier_ok start s" using inv by (simp add: core_inv_def)
    have "n \<in> pq_ids (snd (heappop (pq s)))"
      if "n \<in> dom (distances s)" "n \<notin> visited s" for n
    proof -
      have "n \<in> pq_ids (pq s)" using f that by (auto simp: frontier_ok_def)
      moreover have "n \<noteq> node_id (current_of s)" using stale that by auto
      ultimately show ?thesis by (rule pq_ids_pop_other)
    qed
    then show ?thesis using f pq_ids_pop [of "pq s"] by (auto simp: frontier_ok_def)
  qed
  moreover have "visited_ok start (pop_state s)"
    using inv stale by (auto simp: core_inv_def visited_ok_def)
  ultimately show ?thesis by (simp add: core_inv_def)
qed

text \<open>Finalising the popped node.\<close>

lemma core_visit:
  assumes inv: "core_inv g start s" and ne: "pq s \<noteq> []"
    and fresh: "node_id (current_of s) \<notin> visited s"
  shows "core_inv g start (visit_state s)" and "node_id start \<in> visited (visit_state s)"
proof -
  let ?c = "current_of s"
  have t: "tree_ok g start s" and p: "parent_ok g start s" and f: "frontier_ok start s"
    and v: "visited_ok start s" using inv by (simp_all add: core_inv_def)
  have cpq: "node_id ?c \<in> pq_ids (pq s)" by (rule current_in_pq [OF ne])
  show sv: "node_id start \<in> visited (visit_state s)"
    using v cpq by (auto simp: visited_ok_def)
  have "tree_ok g start (visit_state s)"
    unfolding tree_ok_def
  proof
    fix x assume "x \<in> set (explored (visit_state s))"
    then consider "x \<in> set (explored s)" | "x = ?c" by auto
    then show "\<exists>p. tree_path g (came_from (visit_state s)) start x p
                   \<and> node_id ` set p \<subseteq> visited (visit_state s)"
    proof cases
      case 1
      then show ?thesis using t by (fastforce simp: tree_ok_def)
    next
      case 2
      show ?thesis
      proof (cases "node_eq ?c start")
        case True
        then have "tree_path g (came_from s) start x [start]"
          unfolding 2 by (rule tree_path.root)
        then show ?thesis using sv by auto
      next
        case False
        have "node_id ?c \<in> dom (distances s)" using f cpq by (auto simp: frontier_ok_def)
        then have "node_id ?c \<in> dom (came_from s)"
          using f False unfolding frontier_ok_def node_eq_def by blast
        then obtain q where q: "came_from s (node_id ?c) = Some q" by auto
        with p have qe: "q \<in> set (explored s)" and qn: "node_id ?c \<in> nbr_ids g q"
          by (auto simp: parent_ok_def)
        from t qe obtain pp where pp: "tree_path g (came_from s) start q pp"
          "node_id ` set pp \<subseteq> visited s" by (auto simp: tree_ok_def)
        have "tree_path g (came_from s) start ?c (pp @ [?c])"
          using False q pp(1) qn by (rule tree_path.link)
        then show ?thesis using pp(2) unfolding 2
          by (intro exI [of _ "pp @ [?c]"]) auto
      qed
    qed
  qed
  moreover have "parent_ok g start (visit_state s)"
    using p by (auto simp: parent_ok_def)
  moreover have "frontier_ok start (visit_state s)"
  proof -
    have "n \<in> pq_ids (snd (heappop (pq s)))"
      if "n \<in> dom (distances s)" "n \<notin> visited s" "n \<noteq> node_id ?c" for n
    proof -
      have "n \<in> pq_ids (pq s)" using f that by (auto simp: frontier_ok_def)
      then show ?thesis using that(3) by (rule pq_ids_pop_other)
    qed
    moreover have "node_id ?c \<in> dom (distances s)" using f cpq by (auto simp: frontier_ok_def)
    ultimately show ?thesis using f pq_ids_pop [of "pq s"] by (auto simp: frontier_ok_def)
  qed
  moreover have "visited_ok start (visit_state s)"
    using v sv by (auto simp: visited_ok_def)
  ultimately show "core_inv g start (visit_state s)" by (simp add: core_inv_def)
qed

text \<open>One iteration of the loop over the neighbours of the finalised node \<open>c\<close>.\<close>

lemma core_relax:
  assumes inv: "core_inv g start s" and c: "c \<in> set (explored s)"
    and sv: "node_id start \<in> visited s" and e: "e \<in> set (neighbors g c)"
  shows "core_inv g start (relax_edge add prio c d s e)"
proof (cases "relaxes add s d e")
  case False
  then show ?thesis using inv
    by (simp add: core_inv_def tree_ok_def parent_ok_def frontier_ok_def visited_ok_def
                  relax_edge_simps relax_edge_visited)
next
  case True
  let ?n = "node_id (fst e)"
  let ?s = "relax_edge add prio c d s e"
  have nv: "?n \<notin> visited s" using True by (simp add: relaxes_def)
  have t: "tree_ok g start s" and p: "parent_ok g start s" and f: "frontier_ok start s"
    and v: "visited_ok start s" using inv by (simp_all add: core_inv_def)
  have "tree_ok g start ?s"
    unfolding tree_ok_def
  proof
    fix x assume "x \<in> set (explored ?s)"
    then have "x \<in> set (explored s)" by (simp add: relax_edge_simps)
    with t obtain pp where pp: "tree_path g (came_from s) start x pp"
      "node_id ` set pp \<subseteq> visited s" by (auto simp: tree_ok_def)
    have "tree_path g (came_from ?s) start x pp"
      using pp(1)
    proof (rule tree_path_stable)
      fix y assume "y \<in> set pp"
      then have "node_id y \<noteq> ?n" using pp(2) nv by auto
      then show "came_from ?s (node_id y) = came_from s (node_id y)"
        by (simp add: relax_edge_simps)
    qed
    then show "\<exists>p. tree_path g (came_from ?s) start x p \<and> node_id ` set p \<subseteq> visited ?s"
      using pp(2) by auto
  qed
  moreover have "parent_ok g start ?s"
  proof -
    have "?n \<in> nbr_ids g c" using e by (auto simp: nbr_ids_def)
    moreover have "?n \<noteq> node_id start" using nv sv by auto
    ultimately show ?thesis using p c True
      by (auto simp: parent_ok_def relax_edge_simps)
  qed
  moreover have "frontier_ok start ?s"
    using f True by (auto simp: frontier_ok_def relax_edge_simps pq_ids_def)
  moreover have "visited_ok start ?s"
    using v sv by (auto simp: visited_ok_def relax_edge_simps)
  ultimately show ?thesis by (simp add: core_inv_def)
qed

lemma core_relax_all:
  assumes "core_inv g start s" and "c \<in> set (explored s)" and "node_id start \<in> visited s"
  shows "core_inv g start (relax_all add prio c d (neighbors g c) s)"
proof -
  have "core_inv g start (relax_all add prio c d (neighbors g c) s)
        \<and> c \<in> set (explored (relax_all add prio c d (neighbors g c) s))
        \<and> node_id start \<in> visited (relax_all add prio c d (neighbors g c) s)"
    by (rule relax_all_induct [where P = "\<lambda>s. core_inv g start s \<and> c \<in> set (explored s)
                                              \<and> node_id start \<in> visited s"])
       (use assms in \<open>auto simp: relax_edge_simps intro: core_relax\<close>)
  then show ?thesis by simp
qed

subsection \<open>The loop as a whole\<close>

definition edge_log :: "Graph \<Rightarrow> Node \<Rightarrow> Node list \<Rightarrow> (Node \<times> Node) list" where
  "edge_log g goal xs =
     concat (map (\<lambda>c. map (\<lambda>e. (c, fst e)) (neighbors g c)) (filter (\<lambda>c. \<not> node_eq c goal) xs))"

definition closed_ok :: "Graph \<Rightarrow> 'v search_state \<Rightarrow> bool" where
  "closed_ok g s = (\<forall>u \<in> set (explored s). nbr_ids g u \<subseteq> dom (distances s))"

definition loop_inv :: "Graph \<Rightarrow> Node \<Rightarrow> Node \<Rightarrow> 'v search_state \<Rightarrow> bool" where
  "loop_inv g start goal s =
     (core_inv g start s \<and> closed_ok g s \<and> node_id goal \<notin> visited s
      \<and> edges s = edge_log g goal (explored s))"

definition found_state :: "Graph \<Rightarrow> Node \<Rightarrow> Node \<Rightarrow> 'v search_state \<Rightarrow> bool" where
  "found_state g start goal s =
     (core_inv g start s \<and> node_id goal \<in> visited s \<and> explored s \<noteq> []
      \<and> node_eq (last (explored s)) goal \<and> node_id goal \<notin> node_id ` set (butlast (explored s))
      \<and> edges s = edge_log g goal (explored s))"

definition exhausted_state :: "Graph \<Rightarrow> Node \<Rightarrow> Node \<Rightarrow> 'v search_state \<Rightarrow> bool" where
  "exhausted_state g start goal s = (loop_inv g start goal s \<and> pq s = [])"

lemma relax_edge_dom_mono:
  "n \<in> dom (distances s) \<Longrightarrow> n \<in> dom (distances (relax_edge add prio c d s e))"
  by (auto simp: relax_edge_simps)

lemma relax_all_dom_mono:
  "n \<in> dom (distances s) \<Longrightarrow> n \<in> dom (distances (relax_all add prio c d nbrs s))"
  by (rule relax_all_induct [where P = "\<lambda>s. n \<in> dom (distances s)"])
     (simp_all add: relax_edge_dom_mono)

lemma relax_edge_covers:
  assumes "visited s \<subseteq> dom (distances s)"
  shows "node_id (fst e) \<in> dom (distances (relax_edge add prio c d s e))"
proof (cases "relaxes add s d e")
  case True
  then show ?thesis by (simp add: relax_edge_simps)
next
  case False
  then have "node_id (fst e) \<in> dom (distances s)"
    using assms by (auto simp: relaxes_def improves_def split: option.splits)
  then show ?thesis by (rule relax_edge_dom_mono)
qed

lemma relax_all_covers:
  "visited s \<subseteq> dom (distances s) \<Longrightarrow>
   node_id ` fst ` set nbrs \<subseteq> dom (distances (relax_all add prio c d nbrs s))"
proof (induction nbrs arbitrary: s)
  case Nil
  show ?case by simp
next
  case (Cons e nbrs)
  let ?s = "relax_edge add prio c d s e"
  have v: "visited ?s \<subseteq> dom (distances ?s)"
    using Cons.prems relax_edge_dom_mono [of _ s add prio c d e] by auto
  have "node_id (fst e) \<in> dom (distances (relax_all add prio c d nbrs ?s))"
    by (rule relax_all_dom_mono [OF relax_edge_covers [OF Cons.prems]])
  with Cons.IH [OF v] show ?case by simp
qed

lemma edge_log_snoc:
  "edge_log g goal (xs @ [c]) =
     edge_log g goal xs @ (if node_eq c goal then [] else map (\<lambda>e. (c, fst e)) (neighbors g c))"
  by (simp add: edge_log_def)

lemma loop_init: "loop_inv g start goal (init_state p start)"
  by (simp add: loop_inv_def core_init closed_ok_def) (simp add: init_state_def edge_log_def)

lemma loop_stale:
  assumes "loop_inv g start goal s" "pq s \<noteq> []" "node_id (current_of s) \<in> visited s"
  shows "loop_inv g start goal (pop_state s)"
  using assms core_pop [of g start s] by (simp add: loop_inv_def closed_ok_def)

lemma visited_ids: "core_inv g start s \<Longrightarrow> node_id ` set (explored s) = visited s"
  by (simp add: core_inv_def visited_ok_def)

lemma visited_dom: "core_inv g start s \<Longrightarrow> visited s \<subseteq> dom (distances s)"
  unfolding core_inv_def frontier_ok_def by blast

lemma frontier_dom: "core_inv g start s \<Longrightarrow> pq_ids (pq s) \<subseteq> dom (distances s)"
  unfolding core_inv_def frontier_ok_def by blast

lemma unvisited_in_pq:
  "core_inv g start s \<Longrightarrow> n \<in> dom (distances s) \<Longrightarrow> n \<notin> visited s \<Longrightarrow> n \<in> pq_ids (pq s)"
  unfolding core_inv_def frontier_ok_def by blast

lemma distances_dom:
  "core_inv g start s \<Longrightarrow> n \<in> dom (distances s) \<longleftrightarrow> n = node_id start \<or> n \<in> dom (came_from s)"
  unfolding core_inv_def frontier_ok_def by blast

lemma loop_found:
  assumes inv: "loop_inv g start goal s" and ne: "pq s \<noteq> []"
    and fresh: "node_id (current_of s) \<notin> visited s" and g: "node_eq (current_of s) goal"
  shows "found_state g start goal (visit_state s)"
proof -
  have c: "core_inv g start s" and gv: "node_id goal \<notin> visited s"
    and e: "edges s = edge_log g goal (explored s)" using inv by (simp_all add: loop_inv_def)
  have "node_id goal \<notin> node_id ` set (explored s)" using gv visited_ids [OF c] by simp
  then show ?thesis
    using core_visit(1) [OF c ne fresh] g e
    by (simp add: found_state_def edge_log_snoc node_eq_def)
qed

lemma loop_expand:
  assumes inv: "loop_inv g start goal s" and ne: "pq s \<noteq> []"
    and fresh: "node_id (current_of s) \<notin> visited s" and g: "\<not> node_eq (current_of s) goal"
  shows "loop_inv g start goal
           (relax_all add prio (current_of s) d (neighbors g (current_of s)) (visit_state s))"
proof -
  let ?c = "current_of s"
  let ?v = "visit_state s"
  let ?r = "relax_all add prio ?c d (neighbors g ?c) ?v"
  have c: "core_inv g start s" and cl: "closed_ok g s" and gv: "node_id goal \<notin> visited s"
    and e: "edges s = edge_log g goal (explored s)" using inv by (simp_all add: loop_inv_def)
  have cv: "core_inv g start ?v" and sv: "node_id start \<in> visited ?v"
    using core_visit [OF c ne fresh] by simp_all
  have "core_inv g start ?r" by (rule core_relax_all [OF cv _ sv]) simp
  moreover have "closed_ok g ?r"
    unfolding closed_ok_def
  proof
    fix u assume "u \<in> set (explored ?r)"
    then consider "u \<in> set (explored s)" | "u = ?c" by auto
    then show "nbr_ids g u \<subseteq> dom (distances ?r)"
    proof cases
      case 1
      then have "nbr_ids g u \<subseteq> dom (distances ?v)" using cl by (simp add: closed_ok_def)
      then show ?thesis using relax_all_dom_mono [of _ ?v add prio ?c d "neighbors g ?c"] by blast
    next
      case 2
      have "visited ?v \<subseteq> dom (distances ?v)" by (rule visited_dom [OF cv])
      from relax_all_covers [OF this] show ?thesis unfolding 2 nbr_ids_def .
    qed
  qed
  moreover have "node_id goal \<notin> visited ?r" using gv g by (auto simp: node_eq_def)
  moreover have "edges ?r = edge_log g goal (explored ?r)" using e g by (simp add: edge_log_snoc)
  ultimately show ?thesis by (simp add: loop_inv_def)
qed

lemma search_loop_final:
  assumes "loop_inv g start goal s"
  shows "found_state g start goal (search_loop add base prio g goal s)
         \<or> exhausted_state g start goal (search_loop add base prio g goal s)"
  by (rule search_loop_rule [where I = "loop_inv g start goal", OF assms])
     (simp_all add: loop_stale loop_found loop_expand exhausted_state_def)

subsection \<open>Walks\<close>

fun is_walk :: "Graph \<Rightarrow> Node \<Rightarrow> (Node \<times> real) list \<Rightarrow> bool" where
  "is_walk g u [] = True"
| "is_walk g u (e # es) = (e \<in> set (neighbors g u) \<and> is_walk g (fst e) es)"

definition walk_end :: "Node \<Rightarrow> (Node \<times> real) list \<Rightarrow> Node" where
  "walk_end u es = (if es = [] then u else fst (last es))"

definition cost :: "(Node \<times> real) list \<Rightarrow> real" where
  "cost es = sum_list (map snd es)"

definition reachable :: "Graph \<Rightarrow> Node \<Rightarrow> Node \<Rightarrow> bool" where
  "reachable g a b = (\<exists>es. is_walk g a es \<and> node_eq (walk_end a es) b)"

lemma is_walk_cong: "node_id a = node_id b \<Longrightarrow> is_walk g a es = is_walk g b es"
  by (cases es) (simp_all add: neighbors_cong [of a b])

lemma walk_end_Cons: "walk_end u (e # es) = walk_end (fst e) es"
  by (simp add: walk_end_def)

lemma contiguous_walk:
  "contiguous g (x # p) \<Longrightarrow>
   \<exists>es. is_walk g x es \<and> node_eq (walk_end x es) (last (x # p))
        \<and> map (\<lambda>e. node_id (fst e)) es = map node_id p"
proof (induction p arbitrary: x)
  case Nil
  have "is_walk g x [] \<and> node_eq (walk_end x []) (last [x])"
    by (simp add: walk_end_def node_eq_def)
  then show ?case by (intro exI [of _ "[]"]) simp
next
  case (Cons y p)
  from Cons.prems obtain e where e: "e \<in> set (neighbors g x)" "node_id (fst e) = node_id y"
    by (auto simp: nbr_ids_def)
  from Cons.prems have "contiguous g (y # p)" by simp
  from Cons.IH [OF this] obtain es where es: "is_walk g y es"
    "node_eq (walk_end y es) (last (y # p))" "map (\<lambda>e. node_id (fst e)) es = map node_id p" by blast
  have w: "is_walk g x (e # es)" using e es(1) is_walk_cong [OF e(2), of g es] by simp
  have "node_eq (walk_end (fst e) es) (last (y # p))"
    using es(2) e(2) by (cases "es = []") (simp_all add: walk_end_def node_eq_def)
  then have "node_eq (walk_end x (e # es)) (last (x # y # p))" by (simp add: walk_end_Cons)
  with w es(3) e(2) show ?case by (intro exI [of _ "e # es"]) simp
qed

lemma tree_path_reachable:
  assumes "tree_path g cf start x p"
  shows "reachable g start x"
proof -
  from tree_path_props [OF assms] have p: "p \<noteq> []" "hd p = start" "node_eq (last p) x"
    "contiguous g p" by simp_all
  then obtain q where q: "p = start # q" by (cases p) auto
  from contiguous_walk [of g start q] p(4) q obtain es where
    "is_walk g start es" "node_eq (walk_end start es) (last p)" by auto
  with p(3) show ?thesis by (auto simp: reachable_def node_eq_def)
qed

subsection \<open>The two ways the loop ends\<close>

lemma found_goal_path:
  assumes f: "found_state g start goal s" and ne: "\<not> node_eq start goal"
  shows "\<exists>q p. came_from s (node_id goal) = Some q \<and> tree_path g (came_from s) start q p
               \<and> node_id goal \<in> nbr_ids g q
               \<and> tree_path g (came_from s) start goal (p @ [goal])"
proof -
  have c: "core_inv g start s" and gv: "node_id goal \<in> visited s"
    using f by (simp_all add: found_state_def)
  from gv have "node_id goal \<in> node_id ` set (explored s)" by (simp add: visited_ids [OF c])
  then obtain x where x: "x \<in> set (explored s)" "node_id x = node_id goal" by auto
  from c x(1) obtain px where px: "tree_path g (came_from s) start x px"
    by (auto simp: core_inv_def tree_ok_def)
  have nx: "\<not> node_eq x start" using ne x(2) by (simp add: node_eq_def)
  from px nx obtain q p where q: "came_from s (node_id x) = Some q"
    "tree_path g (came_from s) start q p" "node_id x \<in> nbr_ids g q"
    by (cases rule: tree_path.cases) auto
  have "tree_path g (came_from s) start goal (p @ [goal])"
    using ne q unfolding x(2) by (intro tree_path.link) (auto simp: node_eq_def)
  with q show ?thesis unfolding x(2) by blast
qed

lemma found_reachable:
  assumes "found_state g start goal s" and "\<not> node_eq start goal"
  shows "reachable g start goal"
  using found_goal_path [OF assms] tree_path_reachable by blast

lemma exhausted_closed:
  assumes ex: "exhausted_state g start goal s"
  shows "is_walk g a es \<Longrightarrow> node_id a \<in> visited s \<Longrightarrow> node_id (walk_end a es) \<in> visited s"
proof (induction es arbitrary: a)
  case Nil
  then show ?case by (simp add: walk_end_def)
next
  case (Cons e es)
  have c: "core_inv g start s" and cl: "closed_ok g s" and em: "pq s = []"
    using ex by (simp_all add: exhausted_state_def loop_inv_def)
  from Cons.prems(2) have "node_id a \<in> node_id ` set (explored s)"
    by (simp add: visited_ids [OF c])
  then obtain u where u: "u \<in> set (explored s)" "node_id u = node_id a" by auto
  have "node_id (fst e) \<in> nbr_ids g u"
    using Cons.prems(1) neighbors_cong [OF u(2), of g] by (auto simp: nbr_ids_def)
  then have "node_id (fst e) \<in> dom (distances s)" using cl u(1) by (auto simp: closed_ok_def)
  then have "node_id (fst e) \<in> visited s"
    using unvisited_in_pq [OF c, of "node_id (fst e)"] em by (auto simp: pq_ids_def)
  with Cons.IH [of "fst e"] Cons.prems(1) show ?case by (simp add: walk_end_Cons)
qed

lemma exhausted_unreachable:
  assumes ex: "exhausted_state g start goal s"
  shows "\<not> reachable g start goal"
proof
  assume "reachable g start goal"
  then obtain es where es: "is_walk g start es" "node_eq (walk_end start es) goal"
    by (auto simp: reachable_def)
  have c: "core_inv g start s" and em: "pq s = []" and gv: "node_id goal \<notin> visited s"
    using ex by (simp_all add: exhausted_state_def loop_inv_def)
  have "node_id start \<in> dom (distances s)" using distances_dom [OF c] by simp
  then have "node_id start \<in> visited s"
    using unvisited_in_pq [OF c, of "node_id start"] em by (auto simp: pq_ids_def)
  from exhausted_closed [OF ex es(1) this] es(2) gv show False by (simp add: node_eq_def)
qed

lemma finish_found:
  assumes f: "found_state g start goal s" and ne: "\<not> node_eq start goal"
  shows "\<exists>p d. tree_path g (came_from s) start goal p \<and> distances s (node_id goal) = Some d
           \<and> finish name t start goal s =
               Some (case Route_init p d name (int t) (int (length (explored s)))
                            (explored s) (open_set s) (edges s) of
                       Inl e \<Rightarrow> Inl e
                     | Inr r \<Rightarrow> PathfindingResult_init True (Some r) None)"
proof -
  from found_goal_path [OF f ne] obtain q p where q: "came_from s (node_id goal) = Some q"
    and tp: "tree_path g (came_from s) start goal (p @ [goal])" by blast
  have c: "core_inv g start s" and gv: "node_id goal \<in> visited s"
    using f by (simp_all add: found_state_def)
  from gv visited_dom [OF c] obtain d where d: "distances s (node_id goal) = Some d" by auto
  have "finish name t start goal s =
          Some (case Route_init (p @ [goal]) d name (int t) (int (length (explored s)))
                       (explored s) (open_set s) (edges s) of
                  Inl e \<Rightarrow> Inl e
                | Inr r \<Rightarrow> PathfindingResult_init True (Some r) None)"
    using q d reconstruct_path_tree [OF tp, of "[]"]
    by (simp add: finish_def split: sum.splits)
  with tp d show ?thesis by blast
qed

lemma finish_exhausted:
  assumes ex: "exhausted_state g start goal s" and ne: "\<not> node_eq start goal"
  shows "finish name t start goal s =
           Some (Inr \<lparr>success = False, route = None,
                      error = Some (no_path_message start goal)\<rparr>)"
proof -
  have c: "core_inv g start s" and em: "pq s = []" and gv: "node_id goal \<notin> visited s"
    using ex by (simp_all add: exhausted_state_def loop_inv_def)
  have "node_id goal \<notin> dom (distances s)"
    using unvisited_in_pq [OF c, of "node_id goal"] em gv by (auto simp: pq_ids_def)
  then have "came_from s (node_id goal) = None" using distances_dom [OF c, of "node_id goal"] by auto
  then show ?thesis using ne
    by (simp add: finish_def PathfindingResult_init_def node_eq_def)
qed

subsection \<open>The loop of \<open>astar\<close> is an instance\<close>

lemma astar_relax_Cons:
  "distances s (node_id c) = Some gc \<Longrightarrow>
   astar_relax h goal c (e # rest) s
     = astar_relax h goal c rest (relax_edge float_add (\<lambda>t n. float_add t (h n goal)) c gc s e)"
  by (cases e) (simp add: Let_def)

lemma astar_relax_Inr:
  "node_id c \<in> visited s \<Longrightarrow> distances s (node_id c) = Some gc \<Longrightarrow>
   astar_relax h goal c nbrs s = Inr (relax_all float_add (\<lambda>t n. float_add t (h n goal)) c gc nbrs s)"
proof (induction nbrs arbitrary: s)
  case Nil
  show ?case by simp
next
  case (Cons e nbrs)
  let ?r = "relax_edge float_add (\<lambda>t n. float_add t (h n goal)) c gc s e"
  have "node_id c \<in> visited ?r" using Cons.prems(1) by simp
  moreover have "distances ?r (node_id c) = Some gc"
    using Cons.prems by (simp add: relax_edge_distances_visited)
  ultimately have "astar_relax h goal c nbrs ?r = Inr (relax_all float_add (\<lambda>t n. float_add t (h n goal)) c gc nbrs ?r)"
    by (rule Cons.IH)
  then show ?case by (simp only: astar_relax_Cons [OF Cons.prems(2)] relax_all_Cons)
qed

definition astar_base :: "'v pq_entry \<Rightarrow> 'v search_state \<Rightarrow> 'v" where
  "astar_base e s = the (distances s (node_id (snd (snd e))))"

lemma relax_all_frontier:
  "pq_ids (pq s) \<subseteq> dom (distances s) \<Longrightarrow>
   pq_ids (pq (relax_all add prio c d nbrs s)) \<subseteq> dom (distances (relax_all add prio c d nbrs s))"
  by (rule relax_all_induct [where P = "\<lambda>s. pq_ids (pq s) \<subseteq> dom (distances s)"])
     (auto simp: relax_edge_simps pq_ids_def)

lemma astar_loop_eq:
  "pq_ids (pq s) \<subseteq> dom (distances s) \<Longrightarrow>
   astar_loop h g goal s = Inr (search_loop float_add astar_base (\<lambda>t n. float_add t (h n goal)) g goal s)"
proof (induction h g goal s rule: astar_loop.induct)
  case (1 h g goal s)
  show ?case
  proof (cases "pq s = []")
    case True
    then show ?thesis by (simp add: search_loop.simps astar_loop.simps)
  next
    case ne: False
    show ?thesis
    proof (cases "node_id (current_of s) \<in> visited s")
      case True
      have "pq_ids (pq (pop_state s)) \<subseteq> dom (distances (pop_state s))"
        using "1.prems" pq_ids_pop [of "pq s"] by auto
      then have "astar_loop h g goal (pop_state s)
                   = Inr (search_loop float_add astar_base (\<lambda>t n. float_add t (h n goal)) g goal (pop_state s))"
        using "1.IH"(1) [OF ne refl refl] True
        by (simp add: current_of_def popped_def pop_state_def)
      then show ?thesis using ne True
        by (subst astar_loop.simps, subst search_loop.simps)
           (simp add: Let_def current_of_def popped_def pop_state_def)
    next
      case fresh: False
      show ?thesis
      proof (cases "node_eq (current_of s) goal")
        case True
        then show ?thesis using ne fresh
          by (subst astar_loop.simps, subst search_loop.simps)
             (simp add: Let_def current_of_def popped_def visit_state_def)
      next
        case False
        let ?c = "current_of s"
        let ?v = "visit_state s"
        have "node_id ?c \<in> dom (distances s)"
          using "1.prems" current_in_pq [OF ne] by auto
        then obtain gc where gc: "distances ?v (node_id ?c) = Some gc" by auto
        let ?r = "relax_all float_add (\<lambda>t n. float_add t (h n goal)) ?c gc (neighbors g ?c) ?v"
        have r: "astar_relax h goal ?c (neighbors g ?c) ?v = Inr ?r"
          by (rule astar_relax_Inr [OF _ gc]) simp
        have "pq_ids (pq ?v) \<subseteq> dom (distances ?v)"
          using "1.prems" pq_ids_pop [of "pq s"] by auto
        then have "pq_ids (pq ?r) \<subseteq> dom (distances ?r)" by (rule relax_all_frontier)
        then have "astar_loop h g goal ?r
                     = Inr (search_loop float_add astar_base (\<lambda>t n. float_add t (h n goal)) g goal ?r)"
          using "1.IH"(2) [OF ne refl refl _ refl _ , of ?r] fresh False r
          by (simp add: current_of_def popped_def visit_state_def)
        moreover have "astar_base (popped s) ?v = gc"
          using gc by (simp add: astar_base_def current_of_def)
        ultimately show ?thesis using ne fresh False r
          by (subst astar_loop.simps, subst search_loop.simps)
             (simp add: Let_def current_of_def popped_def visit_state_def)
      qed
    qed
  qed
qed

lemma dijkstra_outcome:
  "found_state g start goal (dijkstra_loop g goal (init_state p start))
   \<or> exhausted_state g start goal (dijkstra_loop g goal (init_state p start))"
  unfolding dijkstra_loop_eq by (rule search_loop_final [OF loop_init])

lemma astar_outcome:
  "\<exists>s. astar_loop h g goal (init_state p start) = Inr s
       \<and> (found_state g start goal s \<or> exhausted_state g start goal s)"
proof -
  have "pq_ids (pq (init_state p start)) \<subseteq> dom (distances (init_state p start))"
    by (simp add: init_state_def pq_ids_def)
  from astar_loop_eq [OF this] search_loop_final [OF loop_init] show ?thesis by blast
qed

subsection \<open>Results of the two search functions\<close>

definition route_of ::
  "string \<Rightarrow> nat \<Rightarrow> Node list \<Rightarrow> pyfloat \<Rightarrow> pyfloat search_state \<Rightarrow> Route" where
  "route_of name t p d s =
     \<lparr>path = p, total_distance = d, algorithm = name, execution_time = int t,
      nodes_explored = int (length (explored s)), explored_nodes = explored s,
      open_set_nodes = open_set s, explored_edges = edges s\<rparr>"

definition failure :: "string \<Rightarrow> PathfindingResult" where
  "failure msg = \<lparr>success = False, route = None, error = Some msg\<rparr>"

lemma finish_cases:
  assumes fin: "found_state g start goal s \<or> exhausted_state g start goal s"
    and ne: "\<not> node_eq start goal"
  shows "(reachable g start goal \<and> found_state g start goal s
          \<and> (\<exists>p d. tree_path g (came_from s) start goal p
                    \<and> distances s (node_id goal) = Some d
                    \<and> finish name t start goal s =
                        Some (if d < 0 then Inl (ValueError ''Distance cannot be negative'')
                              else Inr \<lparr>success = True, route = Some (route_of name t p d s),
                                        error = None\<rparr>)))
       \<or> (\<not> reachable g start goal \<and> exhausted_state g start goal s
          \<and> finish name t start goal s = Some (Inr (failure (no_path_message start goal))))"
  using fin
proof
  assume f: "found_state g start goal s"
  from finish_found [OF f ne, of name t] obtain p d where
    "tree_path g (came_from s) start goal p" "distances s (node_id goal) = Some d"
    "finish name t start goal s =
       Some (case Route_init p d name (int t) (int (length (explored s)))
                    (explored s) (open_set s) (edges s) of
               Inl e \<Rightarrow> Inl e
             | Inr r \<Rightarrow> PathfindingResult_init True (Some r) None)" by blast
  then show ?thesis using found_reachable [OF f ne] f
    by (intro disjI1) (auto simp: Route_init_def PathfindingResult_init_def route_of_def)
next
  assume e: "exhausted_state g start goal s"
  show ?thesis
    using exhausted_unreachable [OF e] e finish_exhausted [OF e ne, of name t]
    by (simp add: failure_def)
qed

lemma dijkstra_cases:
  assumes "has_node g start" and "has_node g goal" and ne: "\<not> node_eq start goal"
  shows "\<exists>s. s = dijkstra_loop g goal (init_state 0 start)
      \<and> ((reachable g start goal \<and> found_state g start goal s
           \<and> (\<exists>p d. tree_path g (came_from s) start goal p
                    \<and> distances s (node_id goal) = Some d
                    \<and> dijkstra t g start goal =
                        Some (if d < 0 then Inl (ValueError ''Distance cannot be negative'')
                              else Inr \<lparr>success = True,
                                        route = Some (route_of ''Dijkstra'' t p d s),
                                        error = None\<rparr>)))
        \<or> (\<not> reachable g start goal \<and> exhausted_state g start goal s
           \<and> dijkstra t g start goal = Some (Inr (failure (no_path_message start goal)))))"
proof -
  have d: "dijkstra t g start goal
             = finish ''Dijkstra'' t start goal (dijkstra_loop g goal (init_state 0 start))"
    using assms by (simp add: dijkstra_def)
  show ?thesis
    using finish_cases [OF dijkstra_outcome ne, of g 0 "''Dijkstra''" t] unfolding d by blast
qed

lemma astar_cases:
  assumes "has_node g start" and "has_node g goal" and ne: "\<not> node_eq start goal"
  shows "\<exists>s. astar_loop h g goal (init_state (Fin (h start goal)) start) = Inr s
      \<and> ((reachable g start goal \<and> found_state g start goal s
           \<and> (\<exists>p d. tree_path g (came_from s) start goal p
                    \<and> distances s (node_id goal) = Some d
                    \<and> astar t g start goal (Callable h) =
                        Some (if d < 0 then Inl (ValueError ''Distance cannot be negative'')
                              else Inr \<lparr>success = True,
                                        route = Some (route_of ''A*'' t p d s),
                                        error = None\<rparr>)))
        \<or> (\<not> reachable g start goal \<and> exhausted_state g start goal s
           \<and> astar t g start goal (Callable h) = Some (Inr (failure (no_path_message start goal)))))"
proof -
  from astar_outcome [of h g goal "Fin (h start goal)" start] obtain s where
    s: "astar_loop h g goal (init_state (Fin (h start goal)) start) = Inr s"
    and fin: "found_state g start goal s \<or> exhausted_state g start goal s" by blast
  have d: "astar t g start goal (Callable h) = finish ''A*'' t start goal s"
    using assms s by (simp add: astar_def)
  show ?thesis
    using finish_cases [OF fin ne, of "''A*''" t] s unfolding d by blast
qed

text \<open>Every successful result carries a route taken from a parent-tree path.\<close>

definition trivial_path :: "Node \<Rightarrow> Route \<Rightarrow> bool" where
  "trivial_path start rt =
     (path rt = [start] \<and> total_distance rt = 0 \<and> explored_nodes rt = [start]
      \<and> explored_edges rt = [])"

lemma dijkstra_success:
  assumes run: "dijkstra t g start goal = Some (Inr r)" and ok: "success r \<or> route r \<noteq> None"
  shows "\<exists>rt. route r = Some rt \<and> success r \<and> ((node_eq start goal \<and> trivial_path start rt)
       \<or> (\<not> node_eq start goal
          \<and> (\<exists>s p d. found_state g start goal s \<and> tree_path g (came_from s) start goal p
                      \<and> distances s (node_id goal) = Some d
                      \<and> s = dijkstra_loop g goal (init_state 0 start)
                      \<and> rt = route_of ''Dijkstra'' t p d s)))"
proof (cases "has_node g start \<and> has_node g goal")
  case False
  then show ?thesis using run ok
    by (auto simp: dijkstra_def PathfindingResult_init_def split: if_splits)
next
  case hn: True
  show ?thesis
  proof (cases "node_eq start goal")
    case True
    then show ?thesis using run ok hn
      by (auto simp: dijkstra_def trivial_route_def Route_init_def PathfindingResult_init_def
                     trivial_path_def)
  next
    case False
    from dijkstra_cases [OF conjunct1 [OF hn] conjunct2 [OF hn] False, of t]
    show ?thesis using run ok False by (fastforce simp: failure_def split: if_splits)
  qed
qed

lemma astar_success:
  assumes run: "astar t g start goal ha = Some (Inr r)" and ok: "success r \<or> route r \<noteq> None"
  shows "\<exists>rt. route r = Some rt \<and> success r \<and> ((node_eq start goal \<and> trivial_path start rt)
       \<or> (\<not> node_eq start goal
          \<and> (\<exists>h s p d. ha = Callable h \<and> found_state g start goal s
                      \<and> tree_path g (came_from s) start goal p
                      \<and> distances s (node_id goal) = Some d
                      \<and> astar_loop h g goal (init_state (Fin (h start goal)) start) = Inr s
                      \<and> rt = route_of ''A*'' t p d s)))"
proof (cases "has_node g start \<and> has_node g goal")
  case False
  then show ?thesis using run ok
    by (auto simp: astar_def PathfindingResult_init_def split: if_splits)
next
  case hn: True
  show ?thesis
  proof (cases ha)
    case NotCallable
    then show ?thesis using run ok hn by (auto simp: astar_def PathfindingResult_init_def)
  next
    case (Callable h)
    show ?thesis
    proof (cases "node_eq start goal")
      case True
      then show ?thesis using run ok hn Callable
        by (auto simp: astar_def trivial_route_def Route_init_def PathfindingResult_init_def
                       trivial_path_def)
    next
      case False
      from astar_cases [OF conjunct1 [OF hn] conjunct2 [OF hn] False, of h t]
      show ?thesis using run ok False Callable by (fastforce simp: failure_def split: if_splits)
    qed
  qed
qed

subsection \<open>Breadth-first search finds every reachable node\<close>

lemma bfs_expand_queue:
  "node_id ` set (snd (bfs_expand nbrs (v, q))) = node_id ` set q \<union> (node_id ` fst ` set nbrs - v)"
proof (induction nbrs arbitrary: v q)
  case Nil
  show ?case by simp
next
  case (Cons e nbrs)
  obtain n w where e: "e = (n, w)" by (cases e)
  show ?case unfolding e by (auto simp add: Cons.IH)
qed

definition bfs_inv :: "Graph \<Rightarrow> Node \<Rightarrow> string set \<times> Node list \<Rightarrow> bool" where
  "bfs_inv g goal r =
     (node_id ` set (snd r) \<subseteq> fst r
      \<and> (\<forall>u. node_id u \<in> fst r - node_id ` set (snd r) \<longrightarrow>
              nbr_ids g u \<subseteq> fst r \<and> \<not> node_eq u goal))"

lemma bfs_inv_step:
  assumes inv: "bfs_inv g goal (v, c # q)" and ng: "\<not> node_eq c goal"
  shows "bfs_inv g goal (bfs_expand (neighbors g c) (v, q))"
proof -
  let ?r = "bfs_expand (neighbors g c) (v, q)"
  have v1: "fst ?r = v \<union> nbr_ids g c" by (simp add: bfs_expand_visited nbr_ids_def)
  have q1: "node_id ` set (snd ?r) = node_id ` set q \<union> (nbr_ids g c - v)"
    by (simp add: bfs_expand_queue nbr_ids_def)
  have sub: "node_id ` set (c # q) \<subseteq> v" using inv by (simp add: bfs_inv_def)
  have "nbr_ids g u \<subseteq> fst ?r \<and> \<not> node_eq u goal"
    if u: "node_id u \<in> fst ?r - node_id ` set (snd ?r)" for u
  proof (cases "node_id u = node_id c")
    case True
    then have "nbr_ids g u = nbr_ids g c" by (intro nbr_ids_cong) (simp add: node_eq_def)
    then show ?thesis using ng True unfolding v1 by (auto simp: node_eq_def)
  next
    case False
    from u have "node_id u \<in> v" "node_id u \<notin> node_id ` set q" unfolding v1 q1 by auto
    with False have "node_id u \<in> v - node_id ` set (c # q)" by auto
    with inv have "nbr_ids g u \<subseteq> v \<and> \<not> node_eq u goal" unfolding bfs_inv_def by simp
    then show ?thesis unfolding v1 by auto
  qed
  moreover have "node_id ` set (snd ?r) \<subseteq> fst ?r" using sub unfolding v1 q1 by auto
  ultimately show ?thesis unfolding bfs_inv_def by blast
qed

lemma bfs_False_closed:
  "bfs_inv g goal r \<Longrightarrow> \<not> bfs g goal r \<Longrightarrow>
   \<exists>v'. fst r \<subseteq> v' \<and> (\<forall>u. node_id u \<in> v' \<longrightarrow> nbr_ids g u \<subseteq> v' \<and> \<not> node_eq u goal)"
proof (induction g goal r rule: bfs.induct)
  case (1 graph goal visited)
  then show ?case by (intro exI [of _ visited]) (simp add: bfs_inv_def)
next
  case (2 graph goal visited current queue)
  from "2.prems"(2) have ng: "\<not> node_eq current goal"
    and f: "\<not> bfs graph goal (bfs_expand (neighbors graph current) (visited, queue))"
    by (simp_all split: if_splits)
  from "2.IH" [OF ng bfs_inv_step [OF "2.prems"(1) ng] f] obtain v' where
    v': "fst (bfs_expand (neighbors graph current) (visited, queue)) \<subseteq> v'"
    "\<forall>u. node_id u \<in> v' \<longrightarrow> nbr_ids graph u \<subseteq> v' \<and> \<not> node_eq u goal" by blast
  have "visited \<subseteq> v'" using v'(1) by (auto simp: bfs_expand_visited)
  with v'(2) show ?case by auto
qed

lemma closed_walk:
  assumes cl: "\<forall>u. node_id u \<in> v \<longrightarrow> nbr_ids g u \<subseteq> v \<and> \<not> node_eq u goal"
  shows "is_walk g a es \<Longrightarrow> node_id a \<in> v \<Longrightarrow> node_id (walk_end a es) \<in> v"
proof (induction es arbitrary: a)
  case Nil
  then show ?case by (simp add: walk_end_def)
next
  case (Cons e es)
  have "node_id (fst e) \<in> nbr_ids g a" using Cons.prems(1) by (auto simp: nbr_ids_def)
  then have "node_id (fst e) \<in> v" using cl Cons.prems(2) by blast
  with Cons.IH [of "fst e"] Cons.prems(1) show ?case by (simp add: walk_end_Cons)
qed

lemma not_connected_unreachable:
  assumes "\<not> is_connected g a b"
  shows "\<not> node_eq a b" and "\<not> reachable g a b"
proof -
  show ne: "\<not> node_eq a b" using assms by (auto simp: is_connected_def)
  have f: "\<not> bfs g b ({node_id a}, [a])" using assms ne by (simp add: is_connected_def)
  have "bfs_inv g b ({node_id a}, [a])" by (simp add: bfs_inv_def)
  from bfs_False_closed [OF this f] obtain v where v: "node_id a \<in> v"
    "\<forall>u. node_id u \<in> v \<longrightarrow> nbr_ids g u \<subseteq> v \<and> \<not> node_eq u b" by auto
  show "\<not> reachable g a b"
  proof
    assume "reachable g a b"
    then obtain es where es: "is_walk g a es" "node_eq (walk_end a es) b"
      by (auto simp: reachable_def)
    from closed_walk [OF v(2) es(1) v(1)] v(2) es(2) show False by blast
  qed
qed


section \<open>Optimality of the search over the real numbers\<close>

text \<open>
  This section is about the shared loop with exact sums: costs and priorities are real
  numbers and \<open>add\<close> is \<open>+\<close>. The next section carries its result over to the runs on
  floats whose sums are exact.
\<close>

subsection \<open>Walks, costs and consistent estimates\<close>










lemma cost_simps [simp]:
  "cost [] = 0" "cost (e # es) = snd e + cost es" "cost (es @ es') = cost es + cost es'"
  by (simp_all add: cost_def)

lemma walk_end_Nil [simp]: "walk_end a [] = a"
  by (simp add: walk_end_def)

lemma walk_end_snoc [simp]: "walk_end a (es @ [e]) = fst e"
  by (simp add: walk_end_def)





subsection \<open>The cost invariant\<close>
















subsection \<open>Relaxation keeps the cost invariant\<close>












subsection \<open>The cost of the goal when the loop ends\<close>













subsection \<open>Heuristics on node objects\<close>











section \<open>Sums of floats that are exact\<close>

text \<open>
  \<open>on_grid m K x\<close>: the real number \<open>x\<close> is \<open>k / 2 ^ m\<close> for a natural number
  \<open>k\<close> up to \<open>K\<close>. Such a number is a float when \<open>K\<close> is at most \<open>2 ^ 53\<close> and
  \<open>m\<close> at most 1074, and rounding leaves it as it is.
\<close>

lemma find_expo_props:
  "a < 2 powi (e + int n + 1) \<Longrightarrow>
   e \<le> find_expo n e a \<and> find_expo n e a \<le> e + int n \<and> a < 2 powi (find_expo n e a + 1)
   \<and> (e < find_expo n e a \<longrightarrow> 2 powi (find_expo n e a) \<le> a)"
proof (induction n arbitrary: e)
  case 0
  then show ?case by simp
next
  case (Suc n)
  show ?case
  proof (cases "a < 2 powi (e + 1)")
    case True
    then show ?thesis by simp
  next
    case False
    have "a < 2 powi (e + 1 + int n + 1)" using Suc.prems by (simp add: add.commute add.left_commute)
    from Suc.IH [OF this] False show ?thesis by (auto simp: not_less)
  qed
qed

lemma expo_props:
  assumes "\<bar>x\<bar> < 2 powi 1024"
  shows "- 1022 \<le> expo x" "expo x \<le> 1023" "\<bar>x\<bar> < 2 powi (expo x + 1)"
    "- 1022 < expo x \<Longrightarrow> 2 powi (expo x) \<le> \<bar>x\<bar>"
proof -
  have "- 1022 + int 2045 + 1 = 1024" by simp
  then have "\<bar>x\<bar> < 2 powi (- 1022 + int 2045 + 1)" using assms by (simp only:)
  from find_expo_props [OF this]
  have p: "- 1022 \<le> expo x \<and> expo x \<le> - 1022 + int 2045 \<and> \<bar>x\<bar> < 2 powi (expo x + 1)
           \<and> (- 1022 < expo x \<longrightarrow> 2 powi (expo x) \<le> \<bar>x\<bar>)"
    unfolding expo_def .
  show "- 1022 \<le> expo x" "\<bar>x\<bar> < 2 powi (expo x + 1)" using p by blast+
  show "expo x \<le> 1023" using p by linarith
  show "- 1022 < expo x \<Longrightarrow> 2 powi (expo x) \<le> \<bar>x\<bar>" using p by blast
qed


definition on_grid :: "nat \<Rightarrow> nat \<Rightarrow> real \<Rightarrow> bool" where
  "on_grid m K x = (0 \<le> x \<and> x * 2 ^ m \<le> real K \<and> of_int \<lfloor>x * 2 ^ m\<rfloor> = x * 2 ^ m)"

lemma on_grid_nat: "on_grid m K x \<longleftrightarrow> (\<exists>k::nat. k \<le> K \<and> x = real k / 2 ^ m)"
proof
  assume g: "on_grid m K x"
  let ?k = "nat \<lfloor>x * 2 ^ m\<rfloor>"
  have nn: "0 \<le> x * 2 ^ m" using g by (simp add: on_grid_def)
  then have "real ?k = of_int \<lfloor>x * 2 ^ m\<rfloor>" by simp
  then have k: "real ?k = x * 2 ^ m" using g by (simp add: on_grid_def)
  then have "x = real ?k / 2 ^ m" by simp
  moreover have "?k \<le> K" using k g unfolding on_grid_def by linarith
  ultimately show "\<exists>k::nat. k \<le> K \<and> x = real k / 2 ^ m" by blast
next
  assume "\<exists>k::nat. k \<le> K \<and> x = real k / 2 ^ m"
  then obtain k :: nat where k: "k \<le> K" "x = real k / 2 ^ m" by blast
  then have "x * 2 ^ m = real k" by simp
  then show "on_grid m K x" using k by (simp add: on_grid_def)
qed

lemma round_even_int [simp]: "round_even (of_int j) = j"
  by (simp add: round_even_def)

lemma round_double_grid:
  assumes g: "on_grid m K x" and K: "K \<le> 2 ^ 53" and m: "m \<le> 1074"
  shows "round_double x = Fin x"
proof -
  from g obtain k :: nat where k: "k \<le> K" "x = real k / 2 ^ m" unfolding on_grid_nat by blast
  have x0: "0 \<le> x" using g by (simp add: on_grid_def)
  have xm: "x = real k * 2 powi (- int m)" using k(2) by (simp add: power_int_minus field_simps)
  have "k \<le> 2 ^ 53" using k(1) K by simp
  then have "real k \<le> real (2 ^ 53)" by (simp only: of_nat_le_iff)
  then have k53: "real k \<le> 2 ^ 53" by simp
  have "real k * 1 \<le> real k * 2 ^ m" by (intro mult_left_mono) simp_all
  then have "real k / 2 ^ m \<le> real k" by (simp add: field_simps)
  with k53 have x53: "x \<le> 2 ^ 53" unfolding k(2) by simp
  have "(2::real) ^ 53 < 2 powi 1024" by (simp add: power_int_def)
  then have big: "\<bar>x\<bar> < 2 powi 1024" using x0 x53 by simp
  note E = expo_props [OF big]
  have "\<exists>j::int. x = of_int j * ulp x"
  proof (cases "expo x - 52 \<le> - int m")
    case True
    define d where "d = nat (- int m - (expo x - 52))"
    have eq: "int d + (expo x - 52) = - int m" using True by (simp add: d_def)
    have "(2::real) powi (- int m) = 2 powi (int d + (expo x - 52))" by (simp only: eq)
    also have "\<dots> = 2 powi (int d) * 2 powi (expo x - 52)" by (rule power_int_add) simp
    finally have "(2::real) powi (- int m) = 2 ^ d * 2 powi (expo x - 52)" by simp
    then have "x = of_int (int k * 2 ^ d) * ulp x" unfolding xm ulp_def by simp
    then show ?thesis by blast
  next
    case False
    then have lo: "53 - int m \<le> expo x" by simp
    then have "- 1022 < expo x" using m by simp
    from E(4) [OF this] x0 have le: "2 powi (expo x) \<le> x" by simp
    have "real k * 2 powi (- int m) \<le> 2 ^ 53 * 2 powi (- int m)"
      using k53 by (intro mult_right_mono) simp_all
    also have "\<dots> = 2 powi 53 * 2 powi (- int m)" by simp
    also have "\<dots> = 2 powi (53 + - int m)" by (rule power_int_add [symmetric]) simp
    also have "\<dots> = 2 powi (53 - int m)" by simp
    finally have up: "x \<le> 2 powi (53 - int m)" unfolding xm .
    have "expo x \<le> 53 - int m"
    proof (rule ccontr)
      assume "\<not> expo x \<le> 53 - int m"
      then have "53 - int m < expo x" by simp
      then have "(2::real) powi (53 - int m) < 2 powi (expo x)"
        by (intro power_int_strict_increasing) simp_all
      with le up show False by simp
    qed
    with lo have e: "expo x = 53 - int m" by simp
    have "x = 2 powi (53 - int m)" using le up unfolding e by simp
    also have "\<dots> = 2 powi (52 + (expo x - 52))" unfolding e by simp
    also have "\<dots> = 2 powi 52 * 2 powi (expo x - 52)" by (rule power_int_add) simp
    finally have "x = of_int (2 ^ 52) * ulp x" unfolding ulp_def by simp
    then show ?thesis by blast
  qed
  then obtain j :: int where j: "x = of_int j * ulp x" by blast
  have u: "0 < ulp x" by (simp add: ulp_def)
  have "x / ulp x = of_int j" using j u by (simp add: field_simps)
  then have r: "of_int (round_even (x / ulp x)) * ulp x = x" using j by simp
  have "\<not> 2 powi 1024 \<le> x" using big x0 by simp
  moreover have "(0::real) < 2 powi 1024" by simp
  then have "\<not> x \<le> - (2 powi 1024)" using x0 by linarith
  ultimately show ?thesis by (simp add: round_double_def r Let_def)
qed





lemma round_double_small: "on_grid 0 (2 ^ 53) x \<Longrightarrow> round_double x = Fin x"
  by (rule round_double_grid [where m = 0 and K = "2 ^ 53"]) simp_all

subsection \<open>The loop on floats against the loop on real numbers\<close>

text \<open>
  \<open>emb\<close> takes a state of the loop over the real numbers to the state over floats
  with the same numbers. When every sum the loop over the real numbers computes is a float,
  the loop over floats goes through the images of its states (\<open>search_loop_emb\<close>).
\<close>

definition emb_entry :: "real pq_entry \<Rightarrow> pyfloat pq_entry" where
  "emb_entry e = (Fin (fst e), snd e)"

definition emb :: "real search_state \<Rightarrow> pyfloat search_state" where
  "emb s = \<lparr>pq = map emb_entry (pq s), counter = counter s,
            distances = (\<lambda>k. map_option Fin (distances s k)), came_from = came_from s,
            visited = visited s, explored = explored s, open_set = open_set s,
            edges = edges s\<rparr>"

lemma emb_simps [simp]:
  "pq (emb s) = map emb_entry (pq s)"
  "counter (emb s) = counter s"
  "distances (emb s) = (\<lambda>k. map_option Fin (distances s k))"
  "came_from (emb s) = came_from s"
  "visited (emb s) = visited s"
  "explored (emb s) = explored s"
  "open_set (emb s) = open_set s"
  "edges (emb s) = edges s"
  by (simp_all add: emb_def)

lemma emb_entry_simps [simp]:
  "fst (emb_entry e) = Fin (fst e)" "snd (emb_entry e) = snd e"
  "emb_entry a = emb_entry b \<longleftrightarrow> a = b"
  by (auto simp: emb_entry_def prod_eq_iff)

lemma emb_entry_less [simp]: "entry_less (emb_entry a) (emb_entry b) = entry_less a b"
  by (simp add: entry_less_def)













subsection \<open>Graphs and estimates with exact sums\<close>














section \<open>Sample graphs\<close>

definition triangle :: Graph where
  "triangle = [(mk_node ''A'' 0 0, [(mk_node ''B'' 0 1, 1), (mk_node ''C'' 0 2, 4)]),
               (mk_node ''B'' 0 1, [(mk_node ''C'' 0 2, 2)]),
               (mk_node ''C'' 0 2, [])]"

definition triangle_route :: "string \<Rightarrow> Route" where
  "triangle_route name =
     \<lparr>path = [mk_node ''A'' 0 0, mk_node ''B'' 0 1, mk_node ''C'' 0 2],
      total_distance = Fin 3, algorithm = name, execution_time = 0, nodes_explored = 3,
      explored_nodes = [mk_node ''A'' 0 0, mk_node ''B'' 0 1, mk_node ''C'' 0 2],
      open_set_nodes = [mk_node ''A'' 0 0, mk_node ''B'' 0 1, mk_node ''C'' 0 2],
      explored_edges = [(mk_node ''A'' 0 0, mk_node ''B'' 0 1),
                        (mk_node ''A'' 0 0, mk_node ''C'' 0 2),
                        (mk_node ''B'' 0 1, mk_node ''C'' 0 2)]\<rparr>"

definition islands :: Graph where
  "islands = [(mk_node ''A'' 0 0, []), (mk_node ''B'' 10 10, [])]"

text \<open>
  The facts that evaluate a run on a small graph. Sums of small whole numbers are exact.
\<close>

lemmas run_simps = dijkstra_def astar_def has_node_def nodes_def node_eq_def init_state_def
  dijkstra_loop.simps astar_loop.simps heappop_def heappush_def entry_less_def Let_def improves_def
  finish_def reconstruct_path.simps Route_init_def PathfindingResult_init_def no_path_message_def
  zero_pyfloat_def round_double_small on_grid_def

lemma triangle_built:
  "add_edge [] (mk_node ''A'' 0 0) (mk_node ''B'' 0 1) 1 False = Inr g1 \<Longrightarrow>
   add_edge g1 (mk_node ''A'' 0 0) (mk_node ''C'' 0 2) 4 False = Inr g2 \<Longrightarrow>
   add_edge g2 (mk_node ''B'' 0 1) (mk_node ''C'' 0 2) 2 False = Inr g3 \<Longrightarrow> g3 = triangle"
  by (auto simp: add_edge_def add_node_def has_node_def nodes_def triangle_def Let_def)

lemma dijkstra_triangle:
  "dijkstra 0 triangle (mk_node ''A'' 0 0) (mk_node ''C'' 0 2)
     = Some (Inr \<lparr>success = True, route = Some (triangle_route ''Dijkstra''), error = None\<rparr>)"
  by (simp add: run_simps triangle_def triangle_route_def)

lemma astar_triangle:
  "astar 0 triangle (mk_node ''A'' 0 0) (mk_node ''C'' 0 2) (Callable (\<lambda>a b. 0))
     = Some (Inr \<lparr>success = True, route = Some (triangle_route ''A*''), error = None\<rparr>)"
  by (simp add: run_simps triangle_def triangle_route_def)

lemma islands_unreachable: "\<not> reachable islands (mk_node ''A'' 0 0) (mk_node ''B'' 10 10)"
proof
  assume "reachable islands (mk_node ''A'' 0 0) (mk_node ''B'' 10 10)"
  then obtain es where "is_walk islands (mk_node ''A'' 0 0) es"
    "node_eq (walk_end (mk_node ''A'' 0 0) es) (mk_node ''B'' 10 10)"
    by (auto simp: reachable_def)
  then show False by (cases es) (simp_all add: islands_def walk_end_def node_eq_def)
qed



text \<open>
  A graph whose weights are floats next to 1: \<open>1 + 1 / 2 ^ 52\<close> is the float that
  follows 1, and \<open>1 + 1 / 2 ^ 53\<close> lies half way between the two, so that it rounds to
  1, the one with the even significand.
\<close>

definition rounding_graph :: Graph where
  "rounding_graph =
     [(mk_node ''S'' 0 0, [(mk_node ''G'' 0 3, 1 + 1 / 2 ^ 52), (mk_node ''X'' (1 / 2 ^ 52) 1, 1)]),
      (mk_node ''G'' 0 3, []),
      (mk_node ''X'' (1 / 2 ^ 52) 1, [(mk_node ''Y'' (1 / 2 ^ 53) 2, 1 / 2 ^ 53)]),
      (mk_node ''Y'' (1 / 2 ^ 53) 2, [(mk_node ''G'' 0 3, 1 / 2 ^ 53)])]"

lemma rounding_graph_built:
  "add_edge [] (mk_node ''S'' 0 0) (mk_node ''G'' 0 3) (1 + 1 / 2 ^ 52) False = Inr g1 \<Longrightarrow>
   add_edge g1 (mk_node ''S'' 0 0) (mk_node ''X'' (1 / 2 ^ 52) 1) 1 False = Inr g2 \<Longrightarrow>
   add_edge g2 (mk_node ''X'' (1 / 2 ^ 52) 1) (mk_node ''Y'' (1 / 2 ^ 53) 2) (1 / 2 ^ 53) False = Inr g3 \<Longrightarrow>
   add_edge g3 (mk_node ''Y'' (1 / 2 ^ 53) 2) (mk_node ''G'' 0 3) (1 / 2 ^ 53) False = Inr g4 \<Longrightarrow>
   g4 = rounding_graph"
  by (auto simp: add_edge_def add_node_def has_node_def nodes_def rounding_graph_def Let_def)









section \<open>Construction validation of results\<close>

text \<open>
  Claim C4 (as stated, refuted): construction validation rejects a successful result with a
  populated error and a failed result with a populated route. \<open>__post_init__\<close> has no
  such check: both combinations are constructed.
\<close>

theorem PathfindingResult_init_accepts_both_fields:
  "PathfindingResult_init True
      (Some \<lparr>path = [], total_distance = 0, algorithm = ''A*'', execution_time = 0,
             nodes_explored = 0, explored_nodes = [], open_set_nodes = [], explored_edges = []\<rparr>)
      (Some ''boom'')
    = Inr \<lparr>success = True,
           route = Some \<lparr>path = [], total_distance = 0, algorithm = ''A*'', execution_time = 0,
             nodes_explored = 0, explored_nodes = [], open_set_nodes = [], explored_edges = []\<rparr>,
           error = Some ''boom''\<rparr>
   \<and> PathfindingResult_init False
      (Some \<lparr>path = [], total_distance = 0, algorithm = ''A*'', execution_time = 0,
             nodes_explored = 0, explored_nodes = [], open_set_nodes = [], explored_edges = []\<rparr>)
      (Some ''boom'')
    = Inr \<lparr>success = False,
           route = Some \<lparr>path = [], total_distance = 0, algorithm = ''A*'', execution_time = 0,
             nodes_explored = 0, explored_nodes = [], open_set_nodes = [], explored_edges = []\<rparr>,
           error = Some ''boom''\<rparr>"
  by (simp add: PathfindingResult_init_def)

text \<open>
  Claim C4 (amended): construction of a \<open>PathfindingResult\<close> fails exactly when a
  successful result has no route or a failed result has no error message; the two fields are
  mandatory in their state, and nothing else is checked.
\<close>

theorem PathfindingResult_init_fails_iff:
  "isl (PathfindingResult_init s r e) = ((s \<and> r = None) \<or> (\<not> s \<and> e = None))"
  by (simp add: PathfindingResult_init_def)

theorem PathfindingResult_init_fails_iff_witness:
  "isl (PathfindingResult_init True None (Some ''boom''))
   \<and> isl (PathfindingResult_init False None None)
   \<and> \<not> isl (PathfindingResult_init False None (Some ''boom''))"
  using PathfindingResult_init_fails_iff [of True None "Some ''boom''"]
        PathfindingResult_init_fails_iff [of False None None]
        PathfindingResult_init_fails_iff [of False None "Some ''boom''"]
  by simp


section \<open>Grid distance against great-circle distance\<close>

lemma sum_lessThan_7: "(\<Sum>m<7. f m) = f 0 + f 1 + f 2 + f 3 + f 4 + f 5 + (f (6::nat) :: real)"
  by (simp add: eval_nat_numeral)

lemma sin_coeffs:
  "sin_coeff 0 = 0" "sin_coeff 1 = 1" "sin_coeff 2 = 0" "sin_coeff 3 = - 1 / 6"
  "sin_coeff 4 = 0" "sin_coeff 5 = 1 / 120" "sin_coeff 6 = 0"
  by (simp_all add: sin_coeff_def fact_numeral)

lemma sin_poly7: "(\<Sum>m<7. sin_coeff m * x ^ m) = x - x ^ 3 / 6 + x ^ 5 / 120"
  unfolding sum_lessThan_7 sin_coeffs by simp

lemma sin_lt_half: "sin (5229 / 10000 :: real) < 1 / 2"
proof -
  let ?x = "5229 / 10000 :: real"
  have b: "\<bar>sin ?x - (\<Sum>m<7. sin_coeff m * ?x ^ m)\<bar> \<le> inverse (fact 7) * \<bar>?x\<bar> ^ 7"
    by (rule Maclaurin_sin_bound)
  have e: "inverse (fact 7) * \<bar>?x\<bar> ^ 7 < (1 / 10000 :: real)"
    by (simp add: fact_numeral power_divide)
  have p: "?x - ?x ^ 3 / 6 + ?x ^ 5 / 120 < 1 / 2 - (1 / 10000 :: real)"
    by (simp add: power_divide)
  from b e p show ?thesis unfolding sin_poly7 by linarith
qed

lemma pi_gt: "(19980 / 6371 :: real) < pi"
proof -
  have "(5229 / 10000 :: real) < pi / 6"
  proof -
    have "sin (5229 / 10000 :: real) < sin (pi / 6)"
      using sin_lt_half by (simp add: sin_30)
    moreover have "- (pi / 2) \<le> (5229 / 10000 :: real)" "(5229 / 10000 :: real) \<le> pi / 2"
      "- (pi / 2) \<le> pi / 6" "pi / 6 \<le> pi / 2"
      using pi_ge_two by simp_all
    ultimately show ?thesis
      using sin_mono_less_eq [of "5229 / 10000" "pi / 6"] by blast
  qed
  then show ?thesis by simp
qed

lemma euclid_meridian:
  "euclidean_distance \<lparr>node_id = ''a'', latitude = 0, longitude = 0\<rparr>
                      \<lparr>node_id = ''b'', latitude = 1, longitude = 0\<rparr> = 6371 * pi / 180"
proof -
  have r: "- (pi / 2) \<le> pi / 360" "pi / 360 \<le> pi / 2" using pi_ge_two by simp_all
  have "0 \<le> sin (pi / 360)" using pi_ge_two by (intro sin_ge_zero) simp_all
  then have "arcsin (sqrt ((sin (pi / 360))\<^sup>2)) = pi / 360"
    using r by (simp add: arcsin_sin)
  then show ?thesis
    by (simp add: euclidean_distance_def node_eq_def radians_def Let_def)
qed

lemma manh_meridian:
  "manhattan_distance \<lparr>node_id = ''a'', latitude = 0, longitude = 0\<rparr>
                      \<lparr>node_id = ''b'', latitude = 1, longitude = 0\<rparr> = 111"
  by (simp add: manhattan_distance_def node_eq_def Let_def)

text \<open>
  Claim C5: the grid distance is at least the great-circle distance for every pair of nodes.
  The code breaks it: one degree of latitude along a meridian is \<open>111\<close> km for
  \<open>manhattan_distance\<close> and \<open>6371 * pi / 180\<close> km (about 111.19) for
  \<open>euclidean_distance\<close>.
\<close>

theorem manhattan_below_great_circle:
  "manhattan_distance \<lparr>node_id = ''a'', latitude = 0, longitude = 0\<rparr>
                      \<lparr>node_id = ''b'', latitude = 1, longitude = 0\<rparr>
   < euclidean_distance \<lparr>node_id = ''a'', latitude = 0, longitude = 0\<rparr>
                      \<lparr>node_id = ''b'', latitude = 1, longitude = 0\<rparr>"
  unfolding euclid_meridian manh_meridian using pi_gt by simp


section \<open>Input validation and the degenerate query\<close>

text \<open>
  Claim C9: a start or goal node that is not in the graph, and for \<open>astar\<close> a heuristic
  that is not callable, is reported by a failed result naming the input, without an
  exception; the checks come before the start-equals-goal shortcut, so they also apply when
  start and goal are the same absent node.
\<close>

theorem invalid_input_reported:
  "(\<not> has_node g start \<longrightarrow>
      dijkstra t g start goal =
        Some (Inr \<lparr>success = False, route = None,
                   error = Some (''Start node '' @ node_id start @ '' not found in graph'')\<rparr>)
    \<and> astar t g start goal h =
        Some (Inr \<lparr>success = False, route = None,
                   error = Some (''Start node '' @ node_id start @ '' not found in graph'')\<rparr>))
   \<and> (has_node g start \<and> \<not> has_node g goal \<longrightarrow>
      dijkstra t g start goal =
        Some (Inr \<lparr>success = False, route = None,
                   error = Some (''Goal node '' @ node_id goal @ '' not found in graph'')\<rparr>)
    \<and> astar t g start goal h =
        Some (Inr \<lparr>success = False, route = None,
                   error = Some (''Goal node '' @ node_id goal @ '' not found in graph'')\<rparr>))
   \<and> (has_node g start \<and> has_node g goal \<longrightarrow>
      astar t g start goal NotCallable =
        Some (Inr \<lparr>success = False, route = None,
                   error = Some ''Heuristic must be a callable function''\<rparr>))"
  by (simp add: dijkstra_def astar_def PathfindingResult_init_def)

theorem invalid_input_reported_witness:
  "\<not> has_node [] (mk_node ''A'' 0 0)
   \<and> dijkstra 0 [] (mk_node ''A'' 0 0)
        (mk_node ''A'' 0 0) =
        Some (Inr \<lparr>success = False, route = None,
                   error = Some ''Start node A not found in graph''\<rparr>)
   \<and> has_node [(mk_node ''A'' 0 0, [])]
        (mk_node ''A'' 0 0)
   \<and> \<not> has_node [(mk_node ''A'' 0 0, [])]
        (mk_node ''B'' 1 1)
   \<and> astar 0 [(mk_node ''A'' 0 0, [])]
        (mk_node ''A'' 0 0)
        (mk_node ''B'' 1 1) (Callable euclidean_distance) =
        Some (Inr \<lparr>success = False, route = None,
                   error = Some ''Goal node B not found in graph''\<rparr>)
   \<and> astar 0 [(mk_node ''A'' 0 0, [])]
        (mk_node ''A'' 0 0)
        (mk_node ''A'' 0 0) NotCallable =
        Some (Inr \<lparr>success = False, route = None,
                   error = Some ''Heuristic must be a callable function''\<rparr>)"
  using invalid_input_reported [where g = "[]" and start = "mk_node ''A'' 0 0" and t = 0
          and goal = "mk_node ''A'' 0 0" and h = NotCallable]
        invalid_input_reported [where g = "[(mk_node ''A'' 0 0, [])]"
          and start = "mk_node ''A'' 0 0" and goal = "mk_node ''B'' 1 1" and t = 0
          and h = "Callable euclidean_distance"]
        invalid_input_reported [where g = "[(mk_node ''A'' 0 0, [])]"
          and start = "mk_node ''A'' 0 0" and goal = "mk_node ''A'' 0 0" and t = 0
          and h = NotCallable]
  by (simp add: has_node_def nodes_def)

text \<open>
  Claim C6 (as stated, refuted): for every graph and every node, a query with start equal to
  goal succeeds. On a node that is not in the graph the presence check fails first.
\<close>

theorem same_node_absent_fails:
  "dijkstra 0 [] (mk_node ''A'' 0 0)
                 (mk_node ''A'' 0 0)
     = Some (Inr \<lparr>success = False, route = None,
                 error = Some ''Start node A not found in graph''\<rparr>)
   \<and> astar 0 [] (mk_node ''A'' 0 0)
                 (mk_node ''A'' 0 0) (Callable euclidean_distance)
     = Some (Inr \<lparr>success = False, route = None,
                 error = Some ''Start node A not found in graph''\<rparr>)"
  by (simp add: dijkstra_def astar_def has_node_def nodes_def PathfindingResult_init_def)

text \<open>
  Claim C6 (amended): for every graph and every node present in it, a query with start equal
  to goal (and, for \<open>astar\<close>, a callable heuristic) succeeds with a route whose path is the
  start node alone and whose total distance is 0.
\<close>

theorem same_node_succeeds:
  assumes "has_node g start" and "node_eq start goal"
  shows "dijkstra t g start goal =
           Some (Inr \<lparr>success = True,
                      route = Some \<lparr>path = [start], total_distance = 0, algorithm = ''Dijkstra'',
                                    execution_time = int t, nodes_explored = 1,
                                    explored_nodes = [start], open_set_nodes = [start],
                                    explored_edges = []\<rparr>,
                      error = None\<rparr>)
       \<and> astar t g start goal (Callable h) =
           Some (Inr \<lparr>success = True,
                      route = Some \<lparr>path = [start], total_distance = 0, algorithm = ''A*'',
                                    execution_time = int t, nodes_explored = 1,
                                    explored_nodes = [start], open_set_nodes = [start],
                                    explored_edges = []\<rparr>,
                      error = None\<rparr>)"
proof -
  have "has_node g goal" using assms by (simp add: has_node_def node_eq_def)
  with assms show ?thesis
    by (simp add: dijkstra_def astar_def trivial_route_def Route_init_def
                  PathfindingResult_init_def)
qed

theorem same_node_succeeds_witness:
  "has_node [(mk_node ''A'' 0 0, [])]
        (mk_node ''A'' 0 0)
   \<and> node_eq (mk_node ''A'' 0 0)
        (mk_node ''A'' 0 0)
   \<and> dijkstra 3 [(mk_node ''A'' 0 0, [])]
        (mk_node ''A'' 0 0)
        (mk_node ''A'' 0 0) =
           Some (Inr \<lparr>success = True,
                      route = Some \<lparr>path = [mk_node ''A'' 0 0],
                                    total_distance = 0, algorithm = ''Dijkstra'',
                                    execution_time = 3, nodes_explored = 1,
                                    explored_nodes = [mk_node ''A'' 0 0],
                                    open_set_nodes = [mk_node ''A'' 0 0],
                                    explored_edges = []\<rparr>,
                      error = None\<rparr>)"
proof -
  have h: "has_node [(mk_node ''A'' 0 0, [])]
             (mk_node ''A'' 0 0)"
    by (simp add: has_node_def nodes_def)
  have e: "node_eq (mk_node ''A'' 0 0)
             (mk_node ''A'' 0 0)"
    by (simp add: node_eq_def)
  show ?thesis using h e same_node_succeeds [OF h e, where t = 3 and h = euclidean_distance] by simp
qed





section \<open>Nearest-node lookup\<close>




section \<open>Properties of search results\<close>

text \<open>
  Claim C7: in every successful search result the path starts at the start node, ends at the
  goal node, and each node of it is followed by one of its neighbours in the graph.
\<close>

theorem path_contiguous:
  assumes "dijkstra t g start goal = Some (Inr r) \<or> astar t g start goal ha = Some (Inr r)"
    and "success r"
  shows "\<exists>rt. route r = Some rt \<and> path rt \<noteq> [] \<and> hd (path rt) = start
              \<and> node_eq (last (path rt)) goal \<and> contiguous g (path rt)"
proof -
  have "\<exists>rt. route r = Some rt
          \<and> ((node_eq start goal \<and> trivial_path start rt)
              \<or> (\<exists>cf. tree_path g cf start goal (path rt)))"
    using assms(1)
  proof
    assume "dijkstra t g start goal = Some (Inr r)"
    from dijkstra_success [OF this] assms(2) show ?thesis
      by (fastforce simp: route_of_def)
  next
    assume "astar t g start goal ha = Some (Inr r)"
    from astar_success [OF this] assms(2) show ?thesis
      by (fastforce simp: route_of_def)
  qed
  then obtain rt where rt: "route r = Some rt"
    and c: "(node_eq start goal \<and> trivial_path start rt)
            \<or> (\<exists>cf. tree_path g cf start goal (path rt))" by blast
  from c have "path rt \<noteq> [] \<and> hd (path rt) = start \<and> node_eq (last (path rt)) goal
               \<and> contiguous g (path rt)"
  proof
    assume "node_eq start goal \<and> trivial_path start rt"
    then show ?thesis by (simp add: trivial_path_def)
  next
    assume "\<exists>cf. tree_path g cf start goal (path rt)"
    then show ?thesis using tree_path_props by blast
  qed
  with rt show ?thesis by blast
qed

theorem path_contiguous_witness:
  "dijkstra 0 triangle (mk_node ''A'' 0 0) (mk_node ''C'' 0 2)
     = Some (Inr \<lparr>success = True, route = Some (triangle_route ''Dijkstra''), error = None\<rparr>)
   \<and> path (triangle_route ''Dijkstra'') = [mk_node ''A'' 0 0, mk_node ''B'' 0 1, mk_node ''C'' 0 2]
   \<and> contiguous triangle (path (triangle_route ''Dijkstra''))"
  using path_contiguous [where t = 0 and g = triangle and start = "mk_node ''A'' 0 0"
          and goal = "mk_node ''C'' 0 2"
          and r = "\<lparr>success = True, route = Some (triangle_route ''Dijkstra''), error = None\<rparr>"]
        dijkstra_triangle
  by (simp add: triangle_route_def)

text \<open>
  Claim C8: in both searches the edge log is the concatenation, over the finalised nodes other
  than the goal in the order they were popped, of their complete neighbour lists
  (\<open>edge_log\<close>): every adjacency entry of an expanded node is recorded, in adjacency order,
  whether or not the neighbour is finalised or relaxed. It holds for the state the loop ends
  in, and for the route of every result.
\<close>

theorem explored_edges_exhaustive:
  "edges (dijkstra_loop g goal (init_state 0 start))
     = edge_log g goal (explored (dijkstra_loop g goal (init_state 0 start)))
   \<and> (\<exists>s. astar_loop h g goal (init_state (Fin (h start goal)) start) = Inr s
           \<and> edges s = edge_log g goal (explored s))
   \<and> ((dijkstra t g start goal = Some (Inr r) \<or> astar t g start goal ha = Some (Inr r))
          \<and> route r = Some rt
        \<longrightarrow> explored_edges rt = edge_log g goal (explored_nodes rt))"
proof (intro conjI impI)
  show "edges (dijkstra_loop g goal (init_state 0 start))
          = edge_log g goal (explored (dijkstra_loop g goal (init_state 0 start)))"
    using dijkstra_outcome [of g start goal 0]
    by (auto simp: found_state_def exhausted_state_def loop_inv_def)
  show "\<exists>s. astar_loop h g goal (init_state (Fin (h start goal)) start) = Inr s
           \<and> edges s = edge_log g goal (explored s)"
    using astar_outcome [of h g goal "Fin (h start goal)" start]
    by (auto simp: found_state_def exhausted_state_def loop_inv_def)
next
  assume a: "(dijkstra t g start goal = Some (Inr r) \<or> astar t g start goal ha = Some (Inr r))
             \<and> route r = Some rt"
  then have "(node_eq start goal \<and> trivial_path start rt)
             \<or> (\<exists>s :: pyfloat search_state. found_state g start goal s \<and> explored_edges rt = edges s
                     \<and> explored_nodes rt = explored s)"
  proof (elim conjE disjE)
    assume "dijkstra t g start goal = Some (Inr r)" "route r = Some rt"
    with dijkstra_success [of t g start goal r] show ?thesis
      by (fastforce simp: route_of_def)
  next
    assume "astar t g start goal ha = Some (Inr r)" "route r = Some rt"
    with astar_success [of t g start goal ha r] show ?thesis
      by (fastforce simp: route_of_def)
  qed
  then show "explored_edges rt = edge_log g goal (explored_nodes rt)"
    by (auto simp: trivial_path_def edge_log_def found_state_def)
qed

theorem explored_edges_exhaustive_witness:
  "dijkstra 0 triangle (mk_node ''A'' 0 0) (mk_node ''C'' 0 2)
     = Some (Inr \<lparr>success = True, route = Some (triangle_route ''Dijkstra''), error = None\<rparr>)
   \<and> explored_edges (triangle_route ''Dijkstra'')
       = edge_log triangle (mk_node ''C'' 0 2) (explored_nodes (triangle_route ''Dijkstra''))
   \<and> explored_edges (triangle_route ''Dijkstra'')
       = [(mk_node ''A'' 0 0, mk_node ''B'' 0 1), (mk_node ''A'' 0 0, mk_node ''C'' 0 2),
          (mk_node ''B'' 0 1, mk_node ''C'' 0 2)]"
  using explored_edges_exhaustive [where t = 0 and g = triangle and start = "mk_node ''A'' 0 0"
          and goal = "mk_node ''C'' 0 2"
          and r = "\<lparr>success = True, route = Some (triangle_route ''Dijkstra''), error = None\<rparr>"
          and rt = "triangle_route ''Dijkstra''"]
        dijkstra_triangle
  by (simp add: triangle_route_def)

text \<open>
  Claim C2: when start and goal are different nodes of the graph and the goal cannot be
  reached from the start, both searches return (no exception, no divergence) a failed
  result whose message is \<open>No path found from <start id> to <goal id>\<close>.
\<close>

theorem unreachable_reported:
  assumes "has_node g start" and "has_node g goal" and "\<not> node_eq start goal"
    and "\<not> reachable g start goal"
  shows "dijkstra t g start goal =
           Some (Inr \<lparr>success = False, route = None,
                      error = Some (''No path found from '' @ node_id start @ '' to ''
                                    @ node_id goal)\<rparr>)
       \<and> astar t g start goal (Callable h) =
           Some (Inr \<lparr>success = False, route = None,
                      error = Some (''No path found from '' @ node_id start @ '' to ''
                                    @ node_id goal)\<rparr>)"
  using dijkstra_cases [OF assms(1-3), of t] astar_cases [OF assms(1-3), of h t] assms(4)
  by (auto simp: failure_def no_path_message_def)

theorem unreachable_reported_witness:
  "has_node islands (mk_node ''A'' 0 0) \<and> has_node islands (mk_node ''B'' 10 10)
   \<and> \<not> node_eq (mk_node ''A'' 0 0) (mk_node ''B'' 10 10)
   \<and> \<not> reachable islands (mk_node ''A'' 0 0) (mk_node ''B'' 10 10)
   \<and> dijkstra 0 islands (mk_node ''A'' 0 0) (mk_node ''B'' 10 10) =
       Some (Inr \<lparr>success = False, route = None, error = Some ''No path found from A to B''\<rparr>)
   \<and> astar 0 islands (mk_node ''A'' 0 0) (mk_node ''B'' 10 10) (Callable euclidean_distance) =
       Some (Inr \<lparr>success = False, route = None, error = Some ''No path found from A to B''\<rparr>)"
proof -
  have h: "has_node islands (mk_node ''A'' 0 0)" "has_node islands (mk_node ''B'' 10 10)"
    "\<not> node_eq (mk_node ''A'' 0 0) (mk_node ''B'' 10 10)"
    by (simp_all add: has_node_def nodes_def islands_def node_eq_def)
  show ?thesis
    using h islands_unreachable
      unreachable_reported [OF h islands_unreachable, of 0 euclidean_distance]
    by simp
qed

section \<open>Disconnected pairs\<close>

text \<open>
  Claim C3 (as stated, refuted): for every graph and every pair of nodes, a false
  \<open>is_connected\<close> gives a failed search whose message mentions both identifiers.
  \<open>is_connected\<close> does not look at the nodes of the graph; for a start node that is
  absent the search reports the start node alone.
\<close>

theorem disconnected_absent_start:
  "\<not> is_connected [] (mk_node ''A'' 0 0) (mk_node ''B'' 1 1)
   \<and> dijkstra 0 [] (mk_node ''A'' 0 0) (mk_node ''B'' 1 1)
       = Some (Inr \<lparr>success = False, route = None,
                    error = Some ''Start node A not found in graph''\<rparr>)
   \<and> astar 0 [] (mk_node ''A'' 0 0) (mk_node ''B'' 1 1) (Callable euclidean_distance)
       = Some (Inr \<lparr>success = False, route = None,
                    error = Some ''Start node A not found in graph''\<rparr>)
   \<and> \<not> sublist ''B'' ''Start node A not found in graph''"
  by (simp add: is_connected_def node_eq_def dijkstra_def astar_def has_node_def nodes_def
                PathfindingResult_init_def sublist_code)

text \<open>
  Claim C3 (amended): for every graph and every pair of nodes present in it, a false
  \<open>is_connected\<close> gives a failed search (for \<open>astar\<close>, with a callable heuristic) whose
  message is \<open>No path found from <start id> to <goal id>\<close>, which mentions both
  identifiers.
\<close>

theorem disconnected_reported:
  assumes "has_node g a" and "has_node g b" and "\<not> is_connected g a b"
  shows "\<exists>msg. dijkstra t g a b = Some (Inr \<lparr>success = False, route = None, error = Some msg\<rparr>)
             \<and> astar t g a b (Callable h) = Some (Inr \<lparr>success = False, route = None, error = Some msg\<rparr>)
             \<and> msg = ''No path found from '' @ node_id a @ '' to '' @ node_id b
             \<and> sublist (node_id a) msg \<and> sublist (node_id b) msg"
proof -
  let ?msg = "''No path found from '' @ node_id a @ '' to '' @ node_id b"
  have "sublist (node_id a) (''No path found from '' @ node_id a @ ('' to '' @ node_id b))"
    by (rule sublist_appendI)
  moreover have "sublist (node_id b) ((''No path found from '' @ node_id a @ '' to '') @ node_id b @ [])"
    by (rule sublist_appendI)
  ultimately have "sublist (node_id a) ?msg \<and> sublist (node_id b) ?msg" by simp
  moreover note ne = not_connected_unreachable [OF assms(3)]
  ultimately show ?thesis
    using dijkstra_cases [OF assms(1,2) ne(1), of t] astar_cases [OF assms(1,2) ne(1), of h t] ne(2)
    by (intro exI [of _ ?msg]) (auto simp: failure_def no_path_message_def)
qed

theorem disconnected_reported_witness:
  "has_node islands (mk_node ''A'' 0 0) \<and> has_node islands (mk_node ''B'' 10 10)
   \<and> \<not> is_connected islands (mk_node ''A'' 0 0) (mk_node ''B'' 10 10)
   \<and> dijkstra 0 islands (mk_node ''A'' 0 0) (mk_node ''B'' 10 10) =
       Some (Inr \<lparr>success = False, route = None, error = Some ''No path found from A to B''\<rparr>)
   \<and> sublist ''A'' ''No path found from A to B'' \<and> sublist ''B'' ''No path found from A to B''"
proof -
  have h: "has_node islands (mk_node ''A'' 0 0)" "has_node islands (mk_node ''B'' 10 10)"
    "\<not> is_connected islands (mk_node ''A'' 0 0) (mk_node ''B'' 10 10)"
    by (simp_all add: has_node_def nodes_def islands_def is_connected_def node_eq_def)
  show ?thesis using h disconnected_reported [OF h, of 0 euclidean_distance] by auto
qed

section \<open>Shortest distance\<close>




end
